theory Spec2Isabelle
  imports Main "HOL-Library.Char_ord" "HOL-Library.List_Lexorder" "HOL-Library.Sublist"
begin

section \<open>Characters and strings\<close>

text \<open>
  Python strings are sequences of code points. The model takes the code points below 256
  (Latin-1), one \<^typ>\<open>char\<close> each. On that range \<open>str.isspace\<close> holds for 9..13, 28..32,
  133 and 160; \<open>str.lower\<close> maps A..Z and the accented capitals 192..222 (without 215, the
  multiplication sign) to the code point 32 above and leaves everything else alone.
\<close>

definition is_space :: "char \<Rightarrow> bool" where
  "is_space c =
     (let n = (of_char c :: nat)
      in (9 \<le> n \<and> n \<le> 13) \<or> (28 \<le> n \<and> n \<le> 32) \<or> n = 133 \<or> n = 160)"

definition lower_chr :: "char \<Rightarrow> char" where
  "lower_chr c =
     (let n = (of_char c :: nat)
      in if (65 \<le> n \<and> n \<le> 90) \<or> (192 \<le> n \<and> n \<le> 222 \<and> n \<noteq> 215)
         then char_of (n + 32) else c)"

definition lower :: "string \<Rightarrow> string" where
  "lower s = map lower_chr s"

text \<open>\<open>s.strip()\<close>: whitespace removed at both ends.\<close>

definition strip :: "string \<Rightarrow> string" where
  "strip s = rev (dropWhile is_space (rev (dropWhile is_space s)))"

text \<open>\<open>s.split(sep)\<close> for a one-character separator; \<open>"".split(",")\<close> is \<open>[""]\<close>.\<close>

fun split_on :: "char \<Rightarrow> string \<Rightarrow> string list" where
  "split_on sep [] = [[]]"
| "split_on sep (c # cs) =
     (if c = sep then [] # split_on sep cs
      else (case split_on sep cs of [] \<Rightarrow> [[c]] | p # ps \<Rightarrow> (c # p) # ps))"

section \<open>Entries\<close>

record cal_date =
  year :: nat
  month :: nat
  day :: nat

text \<open>Python compares \<open>datetime.date\<close> values by (year, month, day).\<close>

definition date_le :: "cal_date \<Rightarrow> cal_date \<Rightarrow> bool" where
  "date_le a b =
     (year a < year b \<or>
      (year a = year b \<and> (month a < month b \<or> (month a = month b \<and> day a \<le> day b))))"

text \<open>
  One row of the entries frame. The text column holds a string or is missing
  (\<open>None\<close>), which is what \<open>na=False\<close>, \<open>fillna("")\<close> and \<open>row.get("text") or ""\<close> in
  the source provide for.
\<close>

record entry =
  date :: cal_date
  day_of_week :: string
  time_of_day :: string
  entry_text :: "string option"

section \<open>utils.py: the keyword pattern\<close>

text \<open>
  \<open>re.escape\<close> puts a backslash before each of the characters
  \<open>()[]{}?*+-|^$\.&~#\<close>, space, tab, newline, carriage return, vertical tab and form feed.
\<close>

definition re_special :: "char \<Rightarrow> bool" where
  "re_special c =
     (c \<in> set [CHR ''('', CHR '')'', CHR ''['', CHR '']'', CHR ''{'', CHR ''}'', CHR ''?'',
                CHR ''*'', CHR ''+'', CHR ''-'', CHR ''|'', CHR ''^'', CHR ''$'', CHR 0x5C,
                CHR ''.'', CHR ''&'', CHR ''~'', CHR ''#'', CHR '' '', CHR 0x09, CHR 0x0A,
                CHR 0x0D, CHR 0x0B, CHR 0x0C])"

fun re_escape :: "string \<Rightarrow> string" where
  "re_escape [] = []"
| "re_escape (c # cs) = (if re_special c then CHR 0x5C # c # re_escape cs else c # re_escape cs)"

text \<open>\<open>s.replace("\\*", ".*")\<close>: every backslash-star pair, left to right, becomes dot-star.\<close>

fun replace_star :: "string \<Rightarrow> string" where
  "replace_star (a # b # cs) =
     (if a = CHR 0x5C \<and> b = CHR ''*'' then CHR ''.'' # CHR ''*'' # replace_star cs
      else a # replace_star (b # cs))"
| "replace_star cs = cs"

text \<open>
  What the regular-expression compiler reads in such a pattern: a backslash followed by a
  character is that character taken literally, dot-star is a run of any characters but
  newline, and any other character stands for itself.
\<close>

datatype tok = Lit char | AnyStar

fun parse_re :: "string \<Rightarrow> tok list" where
  "parse_re (a # b # cs) =
     (if a = CHR 0x5C then Lit b # parse_re cs
      else if a = CHR ''.'' \<and> b = CHR ''*'' then AnyStar # parse_re cs
      else Lit a # parse_re (b # cs))"
| "parse_re [a] = [Lit a]"
| "parse_re [] = []"

definition wild :: "string \<Rightarrow> tok list" where
  "wild p = parse_re (replace_star (re_escape p))"

text \<open>
  Matching with \<open>re.IGNORECASE\<close>: \<open>match_here ts s\<close> holds when the pattern matches a
  prefix of \<open>s\<close>, \<open>re_search ts s\<close> when it matches somewhere in \<open>s\<close>.
\<close>

fun match_here :: "tok list \<Rightarrow> string \<Rightarrow> bool" where
  "match_here [] s = True"
| "match_here (Lit c # ts) [] = False"
| "match_here (Lit c # ts) (d # s) = (lower_chr c = lower_chr d \<and> match_here ts s)"
| "match_here (AnyStar # ts) [] = match_here ts []"
| "match_here (AnyStar # ts) (d # s) =
     (match_here ts (d # s) \<or> (d \<noteq> CHR 0x0A \<and> match_here (AnyStar # ts) s))"

fun re_search :: "tok list \<Rightarrow> string \<Rightarrow> bool" where
  "re_search ts [] = match_here ts []"
| "re_search ts (d # s) = (match_here ts (d # s) \<or> re_search ts s)"

text \<open>
  \<open>[p.strip() for p in keywords.split(",") if p.strip()]\<close>
\<close>

definition keyword_parts :: "string \<Rightarrow> string list" where
  "keyword_parts keywords =
     map strip (filter (\<lambda>p. strip p \<noteq> []) (split_on CHR '','' keywords))"

text \<open>
  The pattern is the alternation of the groups \<open>(?:wild)\<close>, one for each part, and
  \<open>str.contains(pattern, case=False, regex=True, na=False)\<close> searches it in the text; a
  missing text gives \<open>False\<close>.
\<close>

definition text_contains :: "string list \<Rightarrow> string option \<Rightarrow> bool" where
  "text_contains parts t =
     (case t of None \<Rightarrow> False | Some s \<Rightarrow> list_ex (\<lambda>p. re_search (wild p) s) parts)"

section \<open>utils.py: filter\_entries\<close>

definition filter_entries ::
  "entry list option \<Rightarrow> cal_date option \<Rightarrow> cal_date option \<Rightarrow> string list \<Rightarrow> string list
     \<Rightarrow> string \<Rightarrow> entry list" where
  "filter_entries df date_from date_to days times_of_day keywords =
     (case df of
        None \<Rightarrow> []
      | Some rows \<Rightarrow>
          if rows = [] then []
          else
            let out1 = (case date_from of None \<Rightarrow> rows
                        | Some d \<Rightarrow> filter (\<lambda>e. date_le d (date e)) rows);
                out2 = (case date_to of None \<Rightarrow> out1
                        | Some d \<Rightarrow> filter (\<lambda>e. date_le (date e) d) out1);
                out3 = (if days \<noteq> [] then filter (\<lambda>e. day_of_week e \<in> set days) out2
                        else out2);
                out4 = (if times_of_day \<noteq> [] then filter (\<lambda>e. time_of_day e \<in> set times_of_day) out3
                        else out3)
            in if keywords \<noteq> []
               then (let parts = keyword_parts keywords
                     in if parts \<noteq> [] then filter (\<lambda>e. text_contains parts (entry_text e)) out4
                        else out4)
               else out4)"

definition filter_entries_by_date_only ::
  "entry list option \<Rightarrow> cal_date option \<Rightarrow> cal_date option \<Rightarrow> entry list" where
  "filter_entries_by_date_only df date_from date_to =
     filter_entries df date_from date_to [] [] []"

section \<open>Stated behaviour of the keyword constraint\<close>

text \<open>
  \<open>glob p w\<close>: the phrase \<open>p\<close> spells the string \<open>w\<close>, where a star in \<open>p\<close> stands for any
  run of characters without a newline and every other character of \<open>p\<close> stands for itself,
  up to case. \<open>glob_in p s\<close>: some part of the text \<open>s\<close> is spelled by \<open>p\<close>.
\<close>

primrec glob :: "string \<Rightarrow> string \<Rightarrow> bool" where
  "glob [] w = (w = [])"
| "glob (c # p) w =
     (if c = CHR ''*'' then (\<exists>u v. w = u @ v \<and> CHR 0x0A \<notin> set u \<and> glob p v)
      else (\<exists>d v. w = d # v \<and> lower_chr c = lower_chr d \<and> glob p v))"

definition glob_prefix :: "string \<Rightarrow> string \<Rightarrow> bool" where
  "glob_prefix p s = (\<exists>w v. s = w @ v \<and> glob p w)"

definition glob_in :: "string \<Rightarrow> string \<Rightarrow> bool" where
  "glob_in p s = (\<exists>u w v. s = u @ w @ v \<and> glob p w)"

text \<open>
  The same with the star read as the specification words it, zero or more characters of
  any kind.
\<close>

primrec glob_stated :: "string \<Rightarrow> string \<Rightarrow> bool" where
  "glob_stated [] w = (w = [])"
| "glob_stated (c # p) w =
     (if c = CHR ''*'' then (\<exists>u v. w = u @ v \<and> glob_stated p v)
      else (\<exists>d v. w = d # v \<and> lower_chr c = lower_chr d \<and> glob_stated p v))"

definition glob_stated_in :: "string \<Rightarrow> string \<Rightarrow> bool" where
  "glob_stated_in p s = (\<exists>u w v. s = u @ w @ v \<and> glob_stated p w)"

text \<open>
  The keyword constraint in words: no phrase is left after trimming, or the text is there
  and one of the phrases is found in it.
\<close>

definition keyword_ok :: "string \<Rightarrow> string option \<Rightarrow> bool" where
  "keyword_ok keywords t =
     (keyword_parts keywords = [] \<or>
      (\<exists>s p. t = Some s \<and> p \<in> set (keyword_parts keywords) \<and> glob_in p s))"

text \<open>The token a phrase character compiles to.\<close>

definition tokc :: "char \<Rightarrow> tok" where
  "tokc c = (if c = CHR ''*'' then AnyStar else Lit c)"

text \<open>The three entries of the scenario of the specification.\<close>

definition entry1 :: entry where
  "entry1 = \<lparr>date = \<lparr>year = 2024, month = 1, day = 5\<rparr>, day_of_week = ''Friday'',
             time_of_day = ''morning'', entry_text = Some ''felt OCD today''\<rparr>"

definition entry2 :: entry where
  "entry2 = \<lparr>date = \<lparr>year = 2024, month = 1, day = 10\<rparr>, day_of_week = ''Wednesday'',
             time_of_day = ''evening'', entry_text = Some ''productive day at work''\<rparr>"

definition entry3 :: entry where
  "entry3 = \<lparr>date = \<lparr>year = 2024, month = 2, day = 1\<rparr>, day_of_week = ''Thursday'',
             time_of_day = ''afternoon'', entry_text = Some ''calm and happy''\<rparr>"

text \<open>An entry whose text has a line break between two letters.\<close>

definition entry_two_lines :: entry where
  "entry_two_lines = \<lparr>date = \<lparr>year = 2024, month = 3, day = 2\<rparr>, day_of_week = ''Saturday'',
             time_of_day = ''evening'', entry_text = Some [CHR ''a'', CHR 0x0A, CHR ''b'']\<rparr>"

section \<open>report\_builder.py: phrase counts by month\<close>

text \<open>\<open>s.split()\<close>: the maximal runs of characters that are not whitespace.\<close>

fun split_ws :: "string \<Rightarrow> string list" where
  "split_ws [] = []"
| "split_ws (c # cs) =
     (if is_space c then split_ws cs
      else (case cs of
              [] \<Rightarrow> [[c]]
            | d # _ \<Rightarrow>
                if is_space d then [c] # split_ws cs
                else (case split_ws cs of [] \<Rightarrow> [[c]] | w # ws \<Rightarrow> (c # w) # ws)))"

text \<open>
  \<open>_phrase_matches_entry\<close>. \<open>word in text_lower\<close> is the test for a contiguous part,
  \<^const>\<open>sublist\<close>.
\<close>

definition phrase_matches_entry :: "string \<Rightarrow> string \<Rightarrow> bool" where
  "phrase_matches_entry text phrase =
     (if text = [] \<or> phrase = [] then False
      else
        let text_lower = lower text;
            words = map (\<lambda>w. lower (strip w)) (filter (\<lambda>w. strip w \<noteq> []) (split_ws phrase))
        in list_all (\<lambda>word. sublist word text_lower) words)"

text \<open>
  \<open>df["date"].dt.to_period("M").astype(str)\<close> writes a month as four digits of the year, a
  hyphen and two digits of the month.
\<close>

definition digit_chr :: "nat \<Rightarrow> char" where
  "digit_chr n = ''0123456789'' ! n"

definition dec2 :: "nat \<Rightarrow> string" where
  "dec2 n = [digit_chr (n div 10 mod 10), digit_chr (n mod 10)]"

definition month_label :: "cal_date \<Rightarrow> string" where
  "month_label d = dec2 (year d div 100) @ dec2 (year d mod 100) @ ''-'' @ dec2 (month d)"

text \<open>
  Months counted from year 0, for the chronological order, and the label of the month with
  a given count; a date that a frame can hold has a year of four digits.
\<close>

definition month_index :: "cal_date \<Rightarrow> nat" where
  "month_index d = year d * 12 + (month d - 1)"

definition label_of_index :: "nat \<Rightarrow> string" where
  "label_of_index k = dec2 (k div 12 div 100) @ dec2 (k div 12 mod 100) @ ''-'' @ dec2 (k mod 12 + 1)"

definition valid_date :: "cal_date \<Rightarrow> bool" where
  "valid_date d = (1000 \<le> year d \<and> year d \<le> 9999 \<and> 1 \<le> month d \<and> month d \<le> 12)"

text \<open>
  Every whitespace-separated word of the phrase appears in the text as a contiguous part, up
  to case.
\<close>

definition all_words_appear :: "string \<Rightarrow> string \<Rightarrow> bool" where
  "all_words_appear phrase text =
     (\<forall>w \<in> set (split_ws phrase). \<exists>u x v. text = u @ x @ v \<and> lower x = lower w)"

text \<open>\<open>fillna("")\<close> on the text column.\<close>

definition fillna :: "string option \<Rightarrow> string" where
  "fillna t = (case t of None \<Rightarrow> [] | Some s \<Rightarrow> s)"

text \<open>
  \<open>_phrase_counts_by_month\<close>: the columns \<open>month\<close> and \<open>match\<close>, then
  \<open>groupby("month", as_index=False)["match"].sum()\<close>, which has one row for each month label
  in the column, the labels in ascending order, with the number of matching rows of that
  month. The frame is one with a datetime \<open>date\<close> column, as \<open>build_report\<close> receives it.
\<close>

definition phrase_counts_by_month :: "entry list \<Rightarrow> string \<Rightarrow> (string \<times> nat) list" where
  "phrase_counts_by_month df phrase =
     (let month_col = map (\<lambda>e. month_label (date e)) df;
          match_col = map (\<lambda>e. phrase_matches_entry (fillna (entry_text e)) phrase) df
      in map (\<lambda>m. (m, length (filter (\<lambda>r. fst r = m \<and> snd r) (zip month_col match_col))))
           (sort (remdups month_col)))"


section \<open>report\_builder.py: excerpts\<close>

text \<open>
  \<open>x.rsplit(maxsplit=1)\<close>: nothing for a string of whitespace only; otherwise the last
  word, preceded by what is before it without the whitespace in between, when anything
  but whitespace is before it.
\<close>

definition rsplit1 :: "string \<Rightarrow> string list" where
  "rsplit1 x =
     (let r = dropWhile is_space (rev x)
      in if r = [] then []
         else
           let w = takeWhile (\<lambda>c. \<not> is_space c) r;
               rest = dropWhile is_space (dropWhile (\<lambda>c. \<not> is_space c) r)
           in if rest = [] then [rev w] else [rev rest, rev w])"

text \<open>\<open>_excerpt\<close>\<close>

definition excerpt :: "string \<Rightarrow> nat \<Rightarrow> string" where
  "excerpt text max_chars =
     (if text = [] \<or> length text \<le> max_chars then strip text
      else (case rsplit1 (take max_chars text) of
              [] \<Rightarrow> strip (take max_chars text)
            | s0 # _ \<Rightarrow> strip s0))"

text \<open>\<open>sep.join(parts)\<close>\<close>

fun join :: "string \<Rightarrow> string list \<Rightarrow> string" where
  "join sep [] = []"
| "join sep [p] = p"
| "join sep (p # q # ps) = p @ sep @ join sep (q # ps)"

text \<open>
  The inner loop of \<open>_build_grouped_excerpts\<close> over the rows of one group, with its two
  \<open>break\<close>s; \<open>row.get("text") or ""\<close> is \<^const>\<open>fillna\<close>.
\<close>

fun accumulate :: "int \<Rightarrow> string list \<Rightarrow> int \<Rightarrow> entry list \<Rightarrow> string list" where
  "accumulate max_chars_per_group parts total_chars [] = parts"
| "accumulate max_chars_per_group parts total_chars (row # rows) =
     (let t = strip (fillna (entry_text row))
      in if t = [] then accumulate max_chars_per_group parts total_chars rows
         else
           let take_n = min (int (length t)) (max_chars_per_group - total_chars)
           in if take_n \<le> 0 then parts
              else
                let parts' = parts @ [excerpt t (nat take_n)];
                    total_chars' = total_chars + int (length (last parts'))
                in if total_chars' \<ge> max_chars_per_group then parts'
                   else accumulate max_chars_per_group parts' total_chars' rows)"

text \<open>
  \<open>df.groupby(group_col, sort=False)\<close>: the groups in the order their keys first appear,
  each with its rows in frame order.
\<close>

definition first_seen :: "'a list \<Rightarrow> 'a list" where
  "first_seen xs = rev (remdups (rev xs))"

definition build_grouped_excerpts ::
  "entry list \<Rightarrow> (entry \<Rightarrow> string) \<Rightarrow> int \<Rightarrow> (string \<times> string) list" where
  "build_grouped_excerpts df group_col max_chars_per_group =
     map (\<lambda>name. (name, join '' '' (accumulate max_chars_per_group [] 0
                                      (filter (\<lambda>row. group_col row = name) df))))
       (first_seen (map group_col df))"

definition EXCERPT_CHARS_PER_GROUP :: int where
  "EXCERPT_CHARS_PER_GROUP = 600"

text \<open>Five entries of one month: a text of 596 characters and four texts of one letter.\<close>

definition long_text :: string where
  "long_text = replicate 596 CHR ''x''"

definition one_letter_entry :: "char \<Rightarrow> entry" where
  "one_letter_entry c = \<lparr>date = \<lparr>year = 2024, month = 3, day = 2\<rparr>, day_of_week = ''Saturday'',
             time_of_day = ''evening'', entry_text = Some [c]\<rparr>"

definition long_entry :: entry where
  "long_entry = \<lparr>date = \<lparr>year = 2024, month = 3, day = 1\<rparr>, day_of_week = ''Friday'',
             time_of_day = ''evening'', entry_text = Some long_text\<rparr>"

definition march_entries :: "entry list" where
  "march_entries = [long_entry, one_letter_entry CHR ''a'', one_letter_entry CHR ''b'',
                    one_letter_entry CHR ''c'', one_letter_entry CHR ''d'']"

section \<open>utils.py: ollama\_chat\<close>

text \<open>A parsed JSON document; \<open>JNull\<close> is also Python's \<open>None\<close>.\<close>

datatype json = JNull | JBool bool | JNum int | JStr string | JArr "json list"
  | JObj "(string \<times> json) list"

text \<open>The exceptions the source can meet, all of them subclasses of \<open>Exception\<close>.\<close>

datatype exn = RequestException | HTTPError | JSONDecodeError | AttributeError | ValueError
  | RecursionError | OSError

text \<open>
  What \<open>requests.post\<close> brings back: the status code, and what \<open>r.json()\<close> gives (\<open>None\<close>
  when it raises). The network is a function of the key and the prompt; \<open>None\<close> is a
  \<open>requests.post\<close> that raises (no connection, timeout, a header that cannot be sent).
\<close>

datatype response = Response (status_code: nat) (json_body: "json option")

type_synonym 'p network = "string \<Rightarrow> 'p \<Rightarrow> response option"

text \<open>\<open>r.raise_for_status()\<close> raises \<open>HTTPError\<close> for the statuses 400 to 599 and no other.\<close>

definition raise_for_status :: "response \<Rightarrow> bool" where
  "raise_for_status r = (400 \<le> status_code r \<and> status_code r < 600)"

text \<open>A success status, as HTTP has it: 200 to 299.\<close>

definition success_status :: "nat \<Rightarrow> bool" where
  "success_status s = (200 \<le> s \<and> s < 300)"

text \<open>\<open>d.get(k, default)\<close>, an \<open>AttributeError\<close> when \<open>d\<close> is not a dict.\<close>

definition dict_get :: "json \<Rightarrow> string \<Rightarrow> json \<Rightarrow> exn + json" where
  "dict_get d k dflt =
     (case d of
        JObj kvs \<Rightarrow> Inr (case map_of kvs k of None \<Rightarrow> dflt | Some v \<Rightarrow> v)
      | _ \<Rightarrow> Inl AttributeError)"

text \<open>\<open>js.get("message", {}).get("content")\<close>\<close>

definition message_content :: "json \<Rightarrow> exn + json" where
  "message_content js =
     (case dict_get js ''message'' (JObj []) of
        Inl e \<Rightarrow> Inl e
      | Inr m \<Rightarrow> dict_get m ''content'' JNull)"

text \<open>The body of the \<open>try\<close>.\<close>

definition ollama_request :: "'p network \<Rightarrow> 'p \<Rightarrow> string \<Rightarrow> exn + json" where
  "ollama_request net prompt api_key =
     (case net api_key prompt of
        None \<Rightarrow> Inl RequestException
      | Some r \<Rightarrow>
          if raise_for_status r then Inl HTTPError
          else (case json_body r of
                  None \<Rightarrow> Inl JSONDecodeError
                | Some js \<Rightarrow> message_content js))"

text \<open>
  \<open>ollama_chat\<close>, with the number of calls of \<open>requests.post\<close> made so far passed
  through. The result is a sum so that an exception leaving the function would show.
\<close>

definition ollama_chat ::
  "'p network \<Rightarrow> 'p \<Rightarrow> string option \<Rightarrow> nat \<Rightarrow> (exn + json) \<times> nat" where
  "ollama_chat net prompt api_key calls =
     (if api_key = None \<or> api_key = Some [] then (Inr JNull, calls)
      else (case ollama_request net prompt (the api_key) of
              Inl e \<Rightarrow> (Inr JNull, Suc calls)
            | Inr v \<Rightarrow> (Inr v, Suc calls)))"

text \<open>
  The reply-bearing field of a response body, when the body has one: an object with an
  object under \<open>message\<close> that has a \<open>content\<close>.
\<close>

definition reply_content :: "json \<Rightarrow> json option" where
  "reply_content js =
     (case js of
        JObj kvs \<Rightarrow>
          (case map_of kvs ''message'' of
             Some (JObj m) \<Rightarrow> (case map_of m ''content'' of Some v \<Rightarrow> Some v | None \<Rightarrow> None)
           | _ \<Rightarrow> None)
      | _ \<Rightarrow> None)"

text \<open>A network that answers by the key it is given.\<close>

definition example_net :: "unit network" where
  "example_net api_key prompt =
     (if api_key = ''good'' then
        Some (Response 200 (Some (JObj [(''message'', JObj [(''content'', JStr ''fine'')])])))
      else if api_key = ''moved'' then
        Some (Response 301 (Some (JObj [(''message'', JObj [(''content'', JStr ''moved'')])])))
      else if api_key = ''nomsg'' then Some (Response 200 (Some (JObj [(''done'', JBool True)])))
      else if api_key = ''denied'' then Some (Response 401 None)
      else None)"

section \<open>report\_builder.py: the JSON object in a reply\<close>

text \<open>The index of the first occurrence of a pattern in a string.\<close>

fun find_sub :: "string \<Rightarrow> string \<Rightarrow> nat option" where
  "find_sub pat [] = (if pat = [] then Some 0 else None)"
| "find_sub pat (c # cs) =
     (if prefix pat (c # cs) then Some 0
      else (case find_sub pat cs of None \<Rightarrow> None | Some i \<Rightarrow> Some (Suc i)))"

text \<open>Three backquotes.\<close>

definition fence :: string where
  "fence = [CHR 0x60, CHR 0x60, CHR 0x60]"

text \<open>
  Group 1 of the first match of the fence pattern: with \<open>tagged\<close>, the pattern that lets
  \<open>json\<close> follow the opening fence, without, the second pattern of the source. After the
  first fence (and the tag) whitespace is skipped, and the group runs to the next fence.
  Neither the tag nor whitespace holds a backquote, so a closing fence there is after the
  opening one whatever the pattern gives up when it backtracks.
\<close>

definition fence_group :: "bool \<Rightarrow> string \<Rightarrow> string option" where
  "fence_group tagged reply =
     (case find_sub fence reply of
        None \<Rightarrow> None
      | Some i \<Rightarrow>
          let rest = drop (i + 3) reply;
              rest1 = (if tagged \<and> prefix ''json'' rest then drop 4 rest else rest);
              rest2 = dropWhile is_space rest1
          in (case find_sub fence rest2 of None \<Rightarrow> None | Some q \<Rightarrow> Some (take q rest2)))"

text \<open>
  The match of \<open>\{[\s\S]*\}\<close>, which is greedy: from the first opening brace to the last
  closing brace after it.
\<close>

definition brace_span :: "string \<Rightarrow> string option" where
  "brace_span reply =
     (let r = dropWhile (\<lambda>c. c \<noteq> CHR ''{'') reply
      in if r = [] then None
         else
           let body = rev (dropWhile (\<lambda>c. c \<noteq> CHR ''}'') (rev (tl r)))
           in if body = [] then None else Some (CHR ''{'' # body))"

text \<open>
  What one \<open>try\<close> block of the source does: it returns a value, it lets an exception
  leave the function, or it passes to the statements after it.
\<close>

datatype outcome = Return json | Raise exn | Pass

text \<open>
  \<open>json.loads\<close> is the parameter \<open>loads\<close>: \<open>Inr\<close> the value, \<open>Inl\<close> the exception it
  raises. \<open>JSONDecodeError\<close> is what a text that is not JSON raises. \<open>ValueError\<close> stands
  for a \<open>ValueError\<close> that is no \<open>JSONDecodeError\<close> (an integer of more than 4300 digits
  raises it), and neither it nor \<open>RecursionError\<close> (deep nesting) is caught by
  \<open>except json.JSONDecodeError\<close>.
\<close>

definition try_loads :: "(string \<Rightarrow> exn + json) \<Rightarrow> string \<Rightarrow> outcome" where
  "try_loads loads s =
     (case loads s of
        Inr v \<Rightarrow> Return v
      | Inl e \<Rightarrow> if e = JSONDecodeError then Pass else Raise e)"

text \<open>
  \<open>_extract_json_from_reply\<close>. The result is \<open>Inr\<close> what the function returns, \<open>JNull\<close>
  for \<open>None\<close>, and \<open>Inl\<close> the exception that leaves it.
\<close>

definition extract_json_from_reply :: "(string \<Rightarrow> exn + json) \<Rightarrow> string option \<Rightarrow> exn + json" where
  "extract_json_from_reply loads reply0 =
     (let reply = strip (case reply0 of None \<Rightarrow> [] | Some s \<Rightarrow> s)
      in case (case fence_group True reply of None \<Rightarrow> Pass | Some g \<Rightarrow> try_loads loads (strip g)) of
           Return v \<Rightarrow> Inr v
         | Raise e \<Rightarrow> Inl e
         | Pass \<Rightarrow>
          (case (case fence_group False reply of None \<Rightarrow> Pass | Some g \<Rightarrow> try_loads loads (strip g)) of
             Return v \<Rightarrow> Inr v
           | Raise e \<Rightarrow> Inl e
           | Pass \<Rightarrow>
            (case (case brace_span reply of None \<Rightarrow> Pass | Some g \<Rightarrow> try_loads loads g) of
               Return v \<Rightarrow> Inr v
             | Raise e \<Rightarrow> Inl e
             | Pass \<Rightarrow>
              (case try_loads loads reply of
                 Return v \<Rightarrow> Inr v
               | Raise e \<Rightarrow> Inl e
               | Pass \<Rightarrow> Inr JNull))))"

text \<open>
  The candidates tried in order: the first one that is there and on which \<open>json.loads\<close>
  does not raise \<open>JSONDecodeError\<close> decides, by its value or by its exception.
\<close>

fun first_parse :: "(string \<Rightarrow> exn + json) \<Rightarrow> string option list \<Rightarrow> exn + json" where
  "first_parse loads [] = Inr JNull"
| "first_parse loads (None # cs) = first_parse loads cs"
| "first_parse loads (Some s # cs) =
     (case loads s of
        Inr v \<Rightarrow> Inr v
      | Inl e \<Rightarrow> if e = JSONDecodeError then first_parse loads cs else Inl e)"

text \<open>
  The first top-level brace span, as the specification words the second step: from the
  first opening brace to the closing brace that balances it.
\<close>

fun span_end :: "nat \<Rightarrow> string \<Rightarrow> nat option" where
  "span_end d [] = None"
| "span_end d (c # cs) =
     (if c = CHR ''{'' then map_option Suc (span_end (Suc d) cs)
      else if c = CHR ''}'' then (if d \<le> 1 then Some 1 else map_option Suc (span_end (d - 1) cs))
      else map_option Suc (span_end d cs))"

definition first_top_level_span :: "string \<Rightarrow> string option" where
  "first_top_level_span reply =
     (let r = dropWhile (\<lambda>c. c \<noteq> CHR ''{'') reply
      in if r = [] then None
         else (case span_end 1 (tl r) of None \<Rightarrow> None | Some n \<Rightarrow> Some (take (Suc n) r)))"

text \<open>The extractor with the second step as the specification words it.\<close>

definition extract_stated :: "(string \<Rightarrow> exn + json) \<Rightarrow> string option \<Rightarrow> exn + json" where
  "extract_stated loads reply0 =
     (let reply = strip (case reply0 of None \<Rightarrow> [] | Some s \<Rightarrow> s)
      in first_parse loads
           [map_option strip (fence_group True reply), map_option strip (fence_group False reply),
            first_top_level_span reply, Some reply])"

text \<open>
  \<open>json.loads\<close> on the strings of the examples below: an integer of more than 4300 digits
  raises \<open>ValueError\<close>, the two small documents parse, and the other strings met there
  (two documents with text between them, a document with a fence after it) are not JSON.
\<close>

definition example_loads :: "string \<Rightarrow> exn + json" where
  \<open>example_loads s =
     (if 4300 < length s \<and> s = replicate (length s) CHR ''9'' then Inl ValueError
      else if s = ''{"a": 1}'' then Inr (JObj [(''a'', JNum 1)])
      else if s = ''{"b": 2}'' then Inr (JObj [(''b'', JNum 2)])
      else Inl JSONDecodeError)\<close>

definition two_objects_reply :: string where
  \<open>two_objects_reply = ''{"a": 1} and {"b": 2}''\<close>

text \<open>A fenced document with a second document after the block.\<close>

definition fenced_reply :: string where
  \<open>fenced_reply = fence @ ''json '' @ ''{"a": 1}'' @ '' '' @ fence @ '' or {"b": 2}''\<close>

definition long_number :: string where
  "long_number = replicate 4301 CHR ''9''"

section \<open>api.py: get\_report\<close>

text \<open>
  An absolute path is the list of its components. The file system holds regular files
  with their contents and directories (the root is always one); it has no symbolic links
  and no permissions, so that \<open>Path.resolve\<close> only removes the \<open>..\<close> components, each
  with the component before it.
\<close>

type_synonym path = "string list"

record filesystem =
  files :: "path \<rightharpoonup> string"
  dirs :: "path set"

text \<open>
  What the endpoint answers: the \<open>HTTPException\<close> with status 404, the file, or, when
  another exception leaves \<open>get_report\<close>, the error of the server (status 500).
\<close>

datatype http_response = NotFound404 | FileResponse string | ServerError exn

text \<open>
  The components \<open>pathlib\<close> reads in a string: empty components and \<open>.\<close> are dropped.
  \<open>base / filename\<close> is \<open>filename\<close> alone when \<open>filename\<close> is absolute.
\<close>

definition path_parts :: "string \<Rightarrow> string list" where
  "path_parts filename = filter (\<lambda>c. c \<noteq> [] \<and> c \<noteq> ''.'') (split_on CHR ''/'' filename)"

definition joinpath :: "path \<Rightarrow> string \<Rightarrow> path" where
  "joinpath base filename =
     (if prefix ''/'' filename then path_parts filename else base @ path_parts filename)"

fun resolve_parts :: "path \<Rightarrow> string list \<Rightarrow> path" where
  "resolve_parts acc [] = acc"
| "resolve_parts acc (c # cs) =
     (if c = ''..'' then resolve_parts (butlast acc) cs else resolve_parts (acc @ [c]) cs)"

text \<open>
  \<open>Path.resolve()\<close> asks the system about each component. A NUL character in the path
  raises \<open>ValueError\<close> (embedded null byte) there, which \<open>resolve\<close> lets through; the
  \<open>OSError\<close> of a component that is missing or too long it catches.
\<close>

definition resolve :: "path \<Rightarrow> exn + path" where
  "resolve p = (if CHR 0x00 \<in> set (concat p) then Inl ValueError else Inr (resolve_parts [] p))"

text \<open>\<open>p.relative_to(base)\<close>; \<open>None\<close> is the \<open>ValueError\<close>.\<close>

definition relative_to :: "path \<Rightarrow> path \<Rightarrow> path option" where
  "relative_to p base = (if prefix base p then Some (drop (length base) p) else None)"

text \<open>
  The limits of the system on the bytes of one component and of a whole path (with its
  final NUL), and the bytes of a string in UTF-8: one for a code point below 128, two for
  the others below 256.
\<close>

definition NAME_MAX :: nat where
  "NAME_MAX = 255"

definition PATH_MAX :: nat where
  "PATH_MAX = 4096"

definition utf8_len :: "string \<Rightarrow> nat" where
  "utf8_len s = length s + length (filter (\<lambda>c. 128 \<le> (of_char c :: nat)) s)"

definition path_bytes :: "path \<Rightarrow> nat" where
  "path_bytes p = (if p = [] then 1 else sum_list (map (\<lambda>c. Suc (utf8_len c)) p))"

text \<open>
  The system looking a path up, component by component from the directory \<open>cur\<close>:
  \<open>Inr False\<close> when it stops at something that is no directory (\<open>ENOENT\<close>, \<open>ENOTDIR\<close>),
  \<open>OSError\<close> when it is to look up a name of more than \<open>NAME_MAX\<close> bytes in a directory
  (\<open>ENAMETOOLONG\<close>).
\<close>

fun path_walk :: "path set \<Rightarrow> path \<Rightarrow> string list \<Rightarrow> exn + bool" where
  "path_walk ds cur [] = Inr True"
| "path_walk ds cur (c # cs) =
     (if cur = [] \<or> cur \<in> ds then
        (if NAME_MAX < utf8_len c then Inl OSError else path_walk ds (cur @ [c]) cs)
      else Inr False)"

text \<open>
  \<open>p.is_file()\<close>: \<open>stat\<close> on the path, \<open>False\<close> for the errors \<open>ENOENT\<close> and \<open>ENOTDIR\<close>;
  \<open>ENAMETOOLONG\<close> is raised again.
\<close>

definition is_file :: "filesystem \<Rightarrow> path \<Rightarrow> exn + bool" where
  "is_file fs p =
     (if PATH_MAX \<le> path_bytes p then Inl OSError
      else (case path_walk (dirs fs) [] p of
              Inl e \<Rightarrow> Inl e
            | Inr reached \<Rightarrow> Inr (reached \<and> files fs p \<noteq> None)))"

text \<open>
  \<open>get_report\<close>. The call of \<open>resolve\<close> is before the \<open>try\<close>, and the \<open>try\<close> is around
  \<open>relative_to\<close> alone.
\<close>

definition get_report :: "filesystem \<Rightarrow> path \<Rightarrow> string \<Rightarrow> http_response" where
  "get_report fs REPORTS_DIR filename =
     (case resolve (joinpath REPORTS_DIR filename) of
        Inl e \<Rightarrow> ServerError e
      | Inr p \<Rightarrow>
          (case relative_to p REPORTS_DIR of
             None \<Rightarrow> NotFound404
           | Some _ \<Rightarrow>
               (case is_file fs p of
                  Inl e \<Rightarrow> ServerError e
                | Inr b \<Rightarrow> if b then FileResponse (the (files fs p)) else NotFound404)))"

text \<open>A reports directory with one report, next to a source file.\<close>

definition example_dir :: path where
  "example_dir = [''srv'', ''app'', ''reports'']"

definition example_fs :: filesystem where
  "example_fs =
     \<lparr>files =
        [[''srv'', ''app'', ''reports'', ''journal_report_20240301_101500.html''] \<mapsto> ''<html>report</html>'',
         [''srv'', ''app'', ''api.py''] \<mapsto> ''source''],
      dirs = {[''srv''], [''srv'', ''app''], [''srv'', ''app'', ''reports'']}\<rparr>"

text \<open>A name of 300 letters, and a name with a NUL character.\<close>

definition long_name :: string where
  "long_name = replicate 300 CHR ''x''"

definition nul_name :: string where
  "nul_name = [CHR ''a'', CHR 0x00, CHR ''b'']"

text \<open>All five constraints on one row, as one predicate.\<close>

definition row_passes ::
  "cal_date option \<Rightarrow> cal_date option \<Rightarrow> string list \<Rightarrow> string list \<Rightarrow> string \<Rightarrow> entry \<Rightarrow> bool" where
  "row_passes date_from date_to days tod keywords e =
     ((case date_from of None \<Rightarrow> True | Some d \<Rightarrow> date_le d (date e)) \<and>
      (case date_to of None \<Rightarrow> True | Some d \<Rightarrow> date_le (date e) d) \<and>
      (days = [] \<or> day_of_week e \<in> set days) \<and>
      (tod = [] \<or> time_of_day e \<in> set tod) \<and>
      keyword_ok keywords (entry_text e))"

section \<open>The keyword pattern is the phrase, star for star\<close>

lemma tokc_star: "tokc CHR ''*'' = AnyStar"
  by (simp add: tokc_def)

lemma tokc_lit: "c \<noteq> CHR ''*'' \<Longrightarrow> tokc c = Lit c"
  by (simp add: tokc_def)

lemma re_escape_not_star: "re_escape cs \<noteq> CHR ''*'' # xs"
  by (cases cs) (auto simp: re_special_def)

lemma replace_star_cons:
  "\<not> (c = CHR 0x5C \<and> (\<exists>ys. xs = CHR ''*'' # ys)) \<Longrightarrow> replace_star (c # xs) = c # replace_star xs"
  by (cases xs) auto

lemma replace_star_escape_Cons:
  "replace_star (re_escape (c # cs)) =
     (if c = CHR ''*'' then [CHR ''.'', CHR ''*'']
      else if re_special c then [CHR 0x5C, c] else [c]) @ replace_star (re_escape cs)"
proof (cases "re_special c")
  case True
  show ?thesis
  proof (cases "c = CHR ''*''")
    case True
    then show ?thesis by (simp add: re_special_def)
  next
    case False
    have "replace_star (c # re_escape cs) = c # replace_star (re_escape cs)"
      by (rule replace_star_cons) (simp add: re_escape_not_star)
    with False \<open>re_special c\<close> show ?thesis by simp
  qed
next
  case False
  then have "c \<noteq> CHR 0x5C" "c \<noteq> CHR ''*''" by (auto simp: re_special_def)
  then show ?thesis using False by (simp add: replace_star_cons)
qed

lemma wild_map: "wild p = map tokc p"
proof (induction p)
  case Nil
  show ?case by (simp add: wild_def)
next
  case (Cons c p)
  let ?R = "replace_star (re_escape p)"
  have IH: "parse_re ?R = map tokc p" using Cons by (simp add: wild_def)
  show ?case
  proof (cases "c = CHR ''*''")
    case True
    then show ?thesis using IH by (simp add: wild_def replace_star_escape_Cons tokc_def del: re_escape.simps)
  next
    case ns: False
    show ?thesis
    proof (cases "re_special c")
      case True
      then show ?thesis using IH ns by (simp add: wild_def replace_star_escape_Cons tokc_def del: re_escape.simps)
    next
      case False
      then have c: "c \<noteq> CHR 0x5C" "c \<noteq> CHR ''.''" by (auto simp: re_special_def)
      have "parse_re (c # ?R) = Lit c # parse_re ?R"
        using c by (cases ?R) auto
      then show ?thesis using IH ns False by (simp add: wild_def replace_star_escape_Cons tokc_def del: re_escape.simps)
    qed
  qed
qed

section \<open>The matcher finds what the phrase spells\<close>

lemma glob_prefix_Nil: "glob_prefix [] s"
  by (simp add: glob_prefix_def)

lemma glob_prefix_lit:
  "c \<noteq> CHR ''*'' \<Longrightarrow>
     glob_prefix (c # p) s = (case s of [] \<Rightarrow> False | d # s' \<Rightarrow> lower_chr c = lower_chr d \<and> glob_prefix p s')"
  by (cases s) (auto simp: glob_prefix_def Cons_eq_append_conv)

lemma glob_prefix_star_Nil: "glob_prefix (CHR ''*'' # p) [] = glob_prefix p []"
  by (auto simp: glob_prefix_def)

lemma glob_prefix_star_Cons:
  "glob_prefix (CHR ''*'' # p) (d # s) =
     (glob_prefix p (d # s) \<or> (d \<noteq> CHR 0x0A \<and> glob_prefix (CHR ''*'' # p) s))"
proof
  assume "glob_prefix (CHR ''*'' # p) (d # s)"
  then obtain u v r where eq: "d # s = (u @ v) @ r" and u: "CHR 0x0A \<notin> set u" and g: "glob p v"
    by (auto simp: glob_prefix_def)
  show "glob_prefix p (d # s) \<or> (d \<noteq> CHR 0x0A \<and> glob_prefix (CHR ''*'' # p) s)"
  proof (cases u)
    case Nil
    with eq g have "glob_prefix p (d # s)" by (auto simp: glob_prefix_def)
    then show ?thesis ..
  next
    case (Cons a u')
    with eq u have "d \<noteq> CHR 0x0A" "s = (u' @ v) @ r" "CHR 0x0A \<notin> set u'" by auto
    with g have "d \<noteq> CHR 0x0A \<and> glob_prefix (CHR ''*'' # p) s"
      unfolding glob_prefix_def by (intro conjI exI[of _ "u' @ v"] exI[of _ r]) auto
    then show ?thesis ..
  qed
next
  assume "glob_prefix p (d # s) \<or> (d \<noteq> CHR 0x0A \<and> glob_prefix (CHR ''*'' # p) s)"
  then show "glob_prefix (CHR ''*'' # p) (d # s)"
  proof
    assume "glob_prefix p (d # s)"
    then obtain w r where "d # s = w @ r" "glob p w" by (auto simp: glob_prefix_def)
    then show ?thesis
      unfolding glob_prefix_def by (intro exI[of _ w] exI[of _ r]) (auto intro: exI[of _ "[]"])
  next
    assume a: "d \<noteq> CHR 0x0A \<and> glob_prefix (CHR ''*'' # p) s"
    then obtain u v r where "s = (u @ v) @ r" "CHR 0x0A \<notin> set u" "glob p v"
      by (auto simp: glob_prefix_def)
    with a show ?thesis
      unfolding glob_prefix_def
      by (intro exI[of _ "(d # u) @ v"] exI[of _ r]) (auto intro: exI[of _ "d # u"])
  qed
qed

lemma match_here_glob: "match_here (map tokc p) s = glob_prefix p s"
proof (induction p arbitrary: s)
  case Nil
  show ?case by (simp add: glob_prefix_Nil)
next
  case (Cons c p)
  show ?case
  proof (cases "c = CHR ''*''")
    case False
    then show ?thesis using Cons
      by (cases s) (simp_all add: tokc_lit glob_prefix_lit)
  next
    case True
    have "match_here (AnyStar # map tokc p) s = glob_prefix (CHR ''*'' # p) s"
    proof (induction s)
      case Nil
      show ?case using Cons by (simp add: glob_prefix_star_Nil)
    next
      case (Cons d s)
      then show ?case using \<open>\<And>s. match_here (map tokc p) s = glob_prefix p s\<close>
        by (simp add: glob_prefix_star_Cons)
    qed
    with True show ?thesis by (simp add: tokc_star)
  qed
qed

lemma glob_in_Nil: "glob_in p [] = glob_prefix p []"
  by (auto simp: glob_in_def glob_prefix_def)

lemma glob_in_Cons: "glob_in p (d # s) = (glob_prefix p (d # s) \<or> glob_in p s)"
proof
  assume "glob_in p (d # s)"
  then obtain u w v where eq: "d # s = u @ w @ v" and g: "glob p w" by (auto simp: glob_in_def)
  show "glob_prefix p (d # s) \<or> glob_in p s"
  proof (cases u)
    case Nil
    with eq g show ?thesis by (auto simp: glob_prefix_def)
  next
    case (Cons a u')
    with eq g have "s = u' @ w @ v" by simp
    with g show ?thesis by (auto simp: glob_in_def)
  qed
next
  assume "glob_prefix p (d # s) \<or> glob_in p s"
  then show "glob_in p (d # s)"
  proof
    assume "glob_prefix p (d # s)"
    then obtain w v where "d # s = [] @ w @ v" "glob p w" by (auto simp: glob_prefix_def)
    then show ?thesis unfolding glob_in_def by blast
  next
    assume "glob_in p s"
    then obtain u w v where "d # s = (d # u) @ w @ v" "glob p w" by (auto simp: glob_in_def)
    then show ?thesis unfolding glob_in_def by blast
  qed
qed

lemma re_search_glob: "re_search (wild p) s = glob_in p s"
  by (induction s) (simp_all add: wild_map match_here_glob glob_in_Nil glob_in_Cons)

section \<open>filter\_entries is one stable filter\<close>

lemma keyword_parts_Nil: "keyword_parts [] = []"
  by (simp add: keyword_parts_def strip_def)

lemma text_contains_glob:
  "text_contains parts t = (\<exists>s p. t = Some s \<and> p \<in> set parts \<and> glob_in p s)"
  by (cases t) (auto simp: text_contains_def list_ex_iff re_search_glob)

lemma keyword_step:
  "(if keywords \<noteq> []
    then if keyword_parts keywords \<noteq> []
         then filter (\<lambda>e. text_contains (keyword_parts keywords) (entry_text e)) out else out
    else out) = filter (\<lambda>e. keyword_ok keywords (entry_text e)) out"
  by (auto simp: keyword_ok_def keyword_parts_Nil text_contains_glob)

lemma opt_step:
  "(case f of None \<Rightarrow> xs | Some d \<Rightarrow> filter (P d) xs) =
     filter (\<lambda>e. case f of None \<Rightarrow> True | Some d \<Rightarrow> P d e) xs"
  by (cases f) simp_all

lemma if_step: "(if b then filter P xs else xs) = filter (\<lambda>e. \<not> b \<or> P e) xs"
  by simp

lemma filter_entries_eq:
  "filter_entries (Some rows) f t d ti k = filter (row_passes f t d ti k) rows"
proof -
  have "filter_entries (Some rows) f t d ti k =
          filter (\<lambda>e. keyword_ok k (entry_text e))
            (filter (\<lambda>e. \<not> ti \<noteq> [] \<or> time_of_day e \<in> set ti)
              (filter (\<lambda>e. \<not> d \<noteq> [] \<or> day_of_week e \<in> set d)
                (filter (\<lambda>e. case t of None \<Rightarrow> True | Some x \<Rightarrow> date_le (date e) x)
                  (filter (\<lambda>e. case f of None \<Rightarrow> True | Some x \<Rightarrow> date_le x (date e)) rows))))"
    unfolding filter_entries_def Let_def keyword_step
    unfolding opt_step[where P = "\<lambda>d e. date_le d (date e)"]
      opt_step[where P = "\<lambda>d e. date_le (date e) d"] if_step
    by simp
  also have "\<dots> = filter (row_passes f t d ti k) rows"
    by (auto simp: row_passes_def intro!: filter_cong)
  finally show ?thesis .
qed

lemma keyword_parts_OC: "keyword_parts ''OC*'' = [''OC*'']"
  by code_simp

lemma keyword_parts_happy_sad: "keyword_parts ''happy, sad'' = [''happy'', ''sad'']"
  by code_simp

lemma glob_in_literal: "CHR ''*'' \<notin> set p \<Longrightarrow> glob p p"
  by (induction p) auto

lemma glob_in_I: "glob p w \<Longrightarrow> glob_in p (u @ w @ v)"
  unfolding glob_in_def by blast

section \<open>Claims about filter\_entries\<close>

text \<open>
  C4. With no date bound, no day, no time of day and the empty keyword string,
  \<open>filter_entries\<close> returns the rows it was given, in the same order.
\<close>

theorem filter_entries_no_criteria: "filter_entries (Some rows) None None [] [] [] = rows"
  by (simp add: filter_entries_def)

theorem filter_entries_no_criteria_witness: "filter_entries (Some [entry1, entry2, entry3]) None None [] [] [] = [entry1, entry2, entry3]"
  by (rule filter_entries_no_criteria)


text \<open>
  C5. Filtering the result of \<open>filter_entries\<close> again with the same criteria changes
  nothing.
\<close>

theorem filter_entries_idempotent:
  "filter_entries (Some (filter_entries df f t d ti k)) f t d ti k = filter_entries df f t d ti k"
proof (cases df)
  case None
  then show ?thesis by (simp add: filter_entries_def)
next
  case (Some rows)
  then show ?thesis by (simp add: filter_entries_eq)
qed


theorem filter_entries_idempotent_witness:
  "filter_entries (Some (filter_entries (Some [entry1, entry2, entry3]) None None [''Friday''] [] ''OC*''))
      None None [''Friday''] [] ''OC*'' = [entry1]"
proof -
  have "filter_entries (Some [entry1, entry2, entry3]) None None [''Friday''] [] ''OC*'' = [entry1]"
    by code_simp
  then show ?thesis
    using filter_entries_idempotent [of "Some [entry1, entry2, entry3]" None None "[''Friday'']" "[]" "''OC*''"] by simp
qed


text \<open>
  C1, as first worded, lets the star stand for any characters. The pattern compiles the
  star to dot-star, which stops at a newline: the phrase \<open>a*b\<close> spells the text "a, newline,
  b" when the star may stand for the newline, and \<open>filter_entries\<close> drops the entry with
  that text.
\<close>

theorem keyword_star_newline_counterexample:
  "glob_stated_in ''a*b'' [CHR ''a'', CHR 0x0A, CHR ''b'']
   \<and> filter_entries (Some [entry_two_lines]) None None [] [] ''a*b'' = []"
proof
  have "glob_stated ''b'' [CHR ''b'']" by simp
  then have "glob_stated ''*b'' ([CHR 0x0A] @ [CHR ''b''])"
    unfolding glob_stated.simps by (simp only: refl if_True) blast
  then have "glob_stated ''a*b'' [CHR ''a'', CHR 0x0A, CHR ''b'']" by simp
  then have "\<exists>u w v. [CHR ''a'', CHR 0x0A, CHR ''b''] = u @ w @ v \<and> glob_stated ''a*b'' w"
    by (intro exI[of _ "[]"] exI[of _ "[CHR ''a'', CHR 0x0A, CHR ''b'']"]) simp
  then show "glob_stated_in ''a*b'' [CHR ''a'', CHR 0x0A, CHR ''b'']"
    by (simp add: glob_stated_in_def)
  show "filter_entries (Some [entry_two_lines]) None None [] [] ''a*b'' = []"
    by code_simp
qed


text \<open>
  C1, amended. The keyword constraint keeps exactly the rows that \<open>keyword_ok\<close> accepts:
  the keyword string is split at commas and each piece trimmed, pieces that are empty
  after trimming are dropped; if none is left every row passes; otherwise a row passes
  when its text is present and some phrase is found in it, the star standing for zero or
  more characters other than newline and every other character for itself, whatever its
  case. The phrase \<open>OC*\<close> is found in every text containing \<open>OCD\<close>, and the keywords
  \<open>happy, sad\<close> accept every text containing either word.
\<close>

theorem keyword_constraint_semantics:
  "filter_entries (Some rows) date_from date_to days tod keywords =
     filter (\<lambda>e. keyword_ok keywords (entry_text e))
       (filter_entries (Some rows) date_from date_to days tod [])
   \<and> text_contains (keyword_parts ''OC*'') (Some (u @ ''OCD'' @ v))
   \<and> text_contains (keyword_parts ''happy, sad'') (Some (u @ ''happy'' @ v))
   \<and> text_contains (keyword_parts ''happy, sad'') (Some (u @ ''sad'' @ v))"
proof (intro conjI)
  have "keyword_ok [] t" for t by (simp add: keyword_ok_def keyword_parts_Nil)
  then show "filter_entries (Some rows) date_from date_to days tod keywords =
     filter (\<lambda>e. keyword_ok keywords (entry_text e))
       (filter_entries (Some rows) date_from date_to days tod [])"
    by (auto simp: filter_entries_eq row_passes_def intro!: filter_cong)
next
  have "glob ''OC*'' ''OC''" by simp
  then have "glob_in ''OC*'' (u @ ''OC'' @ (''D'' @ v))" by (rule glob_in_I)
  then show "text_contains (keyword_parts ''OC*'') (Some (u @ ''OCD'' @ v))"
    by (simp add: keyword_parts_OC text_contains_glob)
next
  have "glob ''happy'' ''happy''" by (rule glob_in_literal) simp
  then have "glob_in ''happy'' (u @ ''happy'' @ v)" by (rule glob_in_I)
  then show "text_contains (keyword_parts ''happy, sad'') (Some (u @ ''happy'' @ v))"
    by (auto simp: keyword_parts_happy_sad text_contains_glob)
next
  have "glob ''sad'' ''sad''" by (rule glob_in_literal) simp
  then have "glob_in ''sad'' (u @ ''sad'' @ v)" by (rule glob_in_I)
  then show "text_contains (keyword_parts ''happy, sad'') (Some (u @ ''sad'' @ v))"
    by (auto simp: keyword_parts_happy_sad text_contains_glob)
qed

theorem keyword_constraint_semantics_witness:
  "filter_entries (Some [entry1, entry2, entry3]) None None [] [] ''OCD, happy'' = [entry1, entry3]
   \<and> filter (\<lambda>e. keyword_ok ''OCD, happy'' (entry_text e)) [entry1, entry2, entry3] = [entry1, entry3]
   \<and> text_contains (keyword_parts ''OC*'') (Some ''felt OCD today'')"
proof -
  have a: "filter_entries (Some [entry1, entry2, entry3]) None None [] [] ''OCD, happy'' = [entry1, entry3]"
    by code_simp
  have b: "filter_entries (Some [entry1, entry2, entry3]) None None [] [] [] = [entry1, entry2, entry3]"
    by code_simp
  have c: "text_contains (keyword_parts ''OC*'') (Some (''felt '' @ ''OCD'' @ '' today''))"
    using keyword_constraint_semantics [of "[entry1, entry2, entry3]" None None "[]" "[]" "''OCD, happy''" "''felt ''" "'' today''"]
    by blast
  show ?thesis
    using keyword_constraint_semantics [of "[entry1, entry2, entry3]" None None "[]" "[]" "''OCD, happy''" "''felt ''" "'' today''"]
      a b c by simp
qed

section \<open>Month labels sort as months do\<close>

lemma month_label_entries:
  "month_label (date entry1) = ''2024-01''"
  "month_label (date entry2) = ''2024-01''"
  "month_label (date entry3) = ''2024-02''"
  by (simp_all add: month_label_def dec2_def digit_chr_def entry1_def entry2_def entry3_def)

lemma lex_divmod:
  fixes a b n :: nat
  shows "(a div n < b div n \<or> a div n = b div n \<and> a mod n < b mod n) \<longleftrightarrow> a < b"
proof
  assume h: "a div n < b div n \<or> a div n = b div n \<and> a mod n < b mod n"
  show "a < b"
  proof (rule ccontr)
    assume "\<not> a < b"
    then have ba: "b \<le> a" by simp
    then have d: "b div n \<le> a div n" by (rule div_le_mono)
    with h have e: "a div n = b div n" "a mod n < b mod n" by auto
    have "a = a div n * n + a mod n" "b = b div n * n + b mod n" by simp_all
    with e have "a < b" by (metis add_less_cancel_left)
    with ba show False by simp
  qed
next
  assume ab: "a < b"
  then have d: "a div n \<le> b div n" by (simp add: div_le_mono)
  show "a div n < b div n \<or> a div n = b div n \<and> a mod n < b mod n"
  proof (cases "a div n = b div n")
    case True
    have "a = a div n * n + a mod n" "b = b div n * n + b mod n" by simp_all
    with True ab have "a mod n < b mod n" by (metis add_less_cancel_left)
    with True show ?thesis by simp
  next
    case False
    with d show ?thesis by simp
  qed
qed

lemma divmod_eq_iff: "(a div n = b div n \<and> a mod n = b mod n) \<longleftrightarrow> a = b" for a b n :: nat
  by (metis div_mult_mod_eq)

lemma idx:
  assumes "1 \<le> m" "m \<le> 12"
  shows "(y * 12 + (m - 1)) div 12 = (y::nat) \<and> (y * 12 + (m - 1)) mod 12 + 1 = m"
proof -
  obtain r where r: "m = Suc r" "r < 12" using assms by (cases m) auto
  then show ?thesis by simp
qed

lemma of_char_digit: "n < 10 \<Longrightarrow> of_char (digit_chr n) = 48 + n"
proof -
  assume "n < 10"
  then have "n \<in> set [0, 1, 2, 3, 4, 5, 6, 7, 8, 9]" by auto
  then show ?thesis by (auto simp: digit_chr_def)
qed

lemma digit_less: "a < 10 \<Longrightarrow> b < 10 \<Longrightarrow> digit_chr a < digit_chr b \<longleftrightarrow> a < b"
  by (simp add: less_char_def of_char_digit)

lemma digit_eq: "a < 10 \<Longrightarrow> b < 10 \<Longrightarrow> digit_chr a = digit_chr b \<longleftrightarrow> a = b"
proof
  assume "a < 10" "b < 10" "digit_chr a = digit_chr b"
  then have "(of_char (digit_chr a) :: nat) = of_char (digit_chr b)" by simp
  with \<open>a < 10\<close> \<open>b < 10\<close> show "a = b" by (simp add: of_char_digit)
qed simp

lemma dec2_less: "a < 100 \<Longrightarrow> b < 100 \<Longrightarrow> dec2 a < dec2 b \<longleftrightarrow> a < b"
proof -
  assume ab: "a < 100" "b < 100"
  then have r: "a div 10 mod 10 = a div 10" "b div 10 mod 10 = b div 10" by auto
  have "a div 10 < 10" "b div 10 < 10" "a mod 10 < 10" "b mod 10 < 10" using ab by auto
  then have "dec2 a < dec2 b \<longleftrightarrow>
      a div 10 < b div 10 \<or> a div 10 = b div 10 \<and> a mod 10 < b mod 10"
    by (simp add: dec2_def r digit_less digit_eq)
  also have "\<dots> \<longleftrightarrow> a < b" by (rule lex_divmod)
  finally show ?thesis .
qed

lemma dec2_eq: "a < 100 \<Longrightarrow> b < 100 \<Longrightarrow> dec2 a = dec2 b \<longleftrightarrow> a = b"
proof -
  assume ab: "a < 100" "b < 100"
  then have r: "a div 10 mod 10 = a div 10" "b div 10 mod 10 = b div 10" by auto
  have "a div 10 < 10" "b div 10 < 10" "a mod 10 < 10" "b mod 10 < 10" using ab by auto
  then have "dec2 a = dec2 b \<longleftrightarrow> a div 10 = b div 10 \<and> a mod 10 = b mod 10"
    by (simp add: dec2_def r digit_eq)
  also have "\<dots> \<longleftrightarrow> a = b" by (rule divmod_eq_iff)
  finally show ?thesis .
qed

lemma length_dec2: "length (dec2 n) = 2"
  by (simp add: dec2_def)

lemma append_less_same_length:
  "length xs = length ys \<Longrightarrow> (xs @ us < ys @ vs) = (xs < ys \<or> xs = ys \<and> us < vs)"
  for xs ys us vs :: "'a::linorder list"
  by (induction xs ys rule: list_induct2) auto

lemma label_of_index_less:
  assumes "12000 \<le> j" "j < 120000" "12000 \<le> k" "k < 120000"
  shows "label_of_index j < label_of_index k \<longleftrightarrow> j < k"
proof -
  have b: "j div 12 div 100 < 100" "k div 12 div 100 < 100" "j div 12 mod 100 < 100"
    "k div 12 mod 100 < 100" "j mod 12 + 1 < 100" "k mod 12 + 1 < 100"
    using assms by auto
  have "label_of_index j < label_of_index k \<longleftrightarrow>
      j div 12 div 100 < k div 12 div 100 \<or>
      j div 12 div 100 = k div 12 div 100 \<and>
        (j div 12 mod 100 < k div 12 mod 100 \<or>
         j div 12 mod 100 = k div 12 mod 100 \<and> j mod 12 < k mod 12)"
    unfolding label_of_index_def
    by (simp add: append_less_same_length length_dec2 dec2_less dec2_eq b)
  also have "\<dots> \<longleftrightarrow> j div 12 < k div 12 \<or> j div 12 = k div 12 \<and> j mod 12 < k mod 12"
    using lex_divmod [of "j div 12" 100 "k div 12"] divmod_eq_iff [of "j div 12" 100 "k div 12"]
    by blast
  also have "\<dots> \<longleftrightarrow> j < k" by (rule lex_divmod)
  finally show ?thesis .
qed

lemma label_of_index_inj:
  assumes "12000 \<le> j" "j < 120000" "12000 \<le> k" "k < 120000"
  shows "label_of_index j = label_of_index k \<longleftrightarrow> j = k"
  using label_of_index_less[OF assms] label_of_index_less[OF assms(3,4,1,2)]
  by (metis less_irrefl linorder_neqE_nat)

lemma month_index_range: "valid_date d \<Longrightarrow> 12000 \<le> month_index d \<and> month_index d < 120000"
  by (auto simp: valid_date_def month_index_def)

lemma month_label_index: "valid_date d \<Longrightarrow> month_label d = label_of_index (month_index d)"
proof -
  assume v: "valid_date d"
  then have "month_index d div 12 = year d" "month_index d mod 12 + 1 = month d"
    using idx [of "month d" "year d"] by (auto simp: valid_date_def month_index_def)
  then show ?thesis by (simp add: month_label_def label_of_index_def)
qed

section \<open>Words of a phrase\<close>

lemma split_ws_word:
  "w \<in> set (split_ws s) \<Longrightarrow> w \<noteq> [] \<and> (\<forall>c \<in> set w. \<not> is_space c)"
proof (induction s arbitrary: w)
  case Nil
  then show ?case by simp
next
  case (Cons c cs)
  show ?case
  proof (cases "is_space c")
    case True
    with Cons show ?thesis by simp
  next
    case nsp: False
    show ?thesis
    proof (cases cs)
      case Nil
      with Cons.prems nsp show ?thesis by simp
    next
      case cs: (Cons d ds)
      show ?thesis
      proof (cases "is_space d")
        case True
        with Cons.prems nsp cs have "w = [c] \<or> w \<in> set (split_ws cs)" by simp
        with Cons.IH nsp show ?thesis by auto
      next
        case False
        show ?thesis
        proof (cases "split_ws cs")
          case Nil
          with Cons.prems nsp cs False show ?thesis by simp
        next
          case sw: (Cons x xs)
          with Cons.prems nsp cs False have "w = c # x \<or> w \<in> set xs" by simp
          moreover have "x \<in> set (split_ws cs)" "set xs \<subseteq> set (split_ws cs)" using sw by auto
          ultimately show ?thesis using Cons.IH nsp by auto
        qed
      qed
    qed
  qed
qed

lemma strip_word: "w \<noteq> [] \<Longrightarrow> \<forall>c \<in> set w. \<not> is_space c \<Longrightarrow> strip w = w"
proof -
  assume w: "w \<noteq> []" "\<forall>c \<in> set w. \<not> is_space c"
  then have "dropWhile is_space w = w" by (cases w) auto
  moreover have "dropWhile is_space (rev w) = rev w" using w by (cases "rev w") auto
  ultimately show ?thesis by (simp add: strip_def)
qed

lemma phrase_words:
  "map (\<lambda>w. lower (strip w)) (filter (\<lambda>w. strip w \<noteq> []) (split_ws phrase)) =
     map lower (split_ws phrase)"
proof -
  have a: "\<forall>w \<in> set (split_ws phrase). strip w = w \<and> w \<noteq> []"
    using split_ws_word strip_word by blast
  then have "filter (\<lambda>w. strip w \<noteq> []) (split_ws phrase) = split_ws phrase"
    by (simp add: filter_id_conv)
  with a show ?thesis by simp
qed

lemma sublist_lower:
  "sublist (lower w) (lower t) = (\<exists>u x v. t = u @ x @ v \<and> lower x = lower w)"
proof
  assume "sublist (lower w) (lower t)"
  then obtain ps ss where "map lower_chr t = ps @ (map lower_chr w @ ss)"
    by (auto simp: sublist_def lower_def)
  then obtain u r where t: "t = u @ r" and "map lower_chr w @ ss = map lower_chr r"
    unfolding map_eq_append_conv by blast
  then obtain x v where "r = x @ v" "map lower_chr w = map lower_chr x"
    unfolding append_eq_map_conv by blast
  with t show "\<exists>u x v. t = u @ x @ v \<and> lower x = lower w" by (auto simp: lower_def)
next
  assume "\<exists>u x v. t = u @ x @ v \<and> lower x = lower w"
  then obtain u x v where "t = u @ x @ v" "lower x = lower w" by blast
  then have "lower t = lower u @ lower w @ lower v" by (simp add: lower_def)
  then show "sublist (lower w) (lower t)" unfolding sublist_def by blast
qed

lemma phrase_matches_entry_iff:
  "phrase_matches_entry text phrase =
     (text \<noteq> [] \<and> phrase \<noteq> [] \<and> all_words_appear phrase text)"
  by (simp add: phrase_matches_entry_def Let_def phrase_words list_all_iff sublist_lower
      all_words_appear_def)

lemma split_ws_spaces: "\<forall>c \<in> set s. is_space c \<Longrightarrow> split_ws s = []"
  by (induction s) auto

lemma count_zip:
  "length (filter (\<lambda>r. fst r = m \<and> snd r) (zip (map f df) (map g df))) =
     length (filter (\<lambda>e. f e = m \<and> g e) df)"
  by (induction df) auto

lemma phrase_counts_by_month_eq:
  "phrase_counts_by_month df phrase =
     map (\<lambda>m. (m, length (filter (\<lambda>e. month_label (date e) = m \<and>
                  phrase_matches_entry (fillna (entry_text e)) phrase) df)))
       (sort (remdups (map (\<lambda>e. month_label (date e)) df)))"
  by (simp add: phrase_counts_by_month_def Let_def count_zip)

section \<open>Counts by month\<close>

lemma label_of_index_mono:
  assumes "12000 \<le> j" "j < 120000" "12000 \<le> k" "k < 120000" "j \<le> k"
  shows "label_of_index j \<le> label_of_index k"
proof (cases "j = k")
  case True
  then show ?thesis by simp
next
  case False
  with assms have "j < k" by simp
  then have "label_of_index j < label_of_index k"
    using label_of_index_less[OF assms(1-4)] by simp
  then show ?thesis by simp
qed

lemma sort_labels:
  assumes v: "\<forall>e \<in> set df. valid_date (date e)"
  shows "sort (remdups (map (\<lambda>e. month_label (date e)) df)) =
           map label_of_index (sort (remdups (map (\<lambda>e. month_index (date e)) df)))"
proof -
  define ks where "ks = sort (remdups (map (\<lambda>e. month_index (date e)) df))"
  have set_ks: "set ks = (\<lambda>e. month_index (date e)) ` set df" by (simp add: ks_def)
  have rng: "12000 \<le> k \<and> k < 120000" if "k \<in> set ks" for k
    using that v month_index_range unfolding set_ks by blast
  have "sorted_wrt (\<le>) ks" by (simp add: ks_def)
  then have "sorted_wrt (\<lambda>j k. label_of_index j \<le> label_of_index k) ks"
    by (rule sorted_wrt_mono_rel[rotated]) (use rng label_of_index_mono in blast)
  then have s: "sorted (map label_of_index ks)" by (simp add: sorted_map)
  have "inj_on label_of_index (set ks)"
    unfolding inj_on_def using rng label_of_index_inj by blast
  moreover have "distinct ks" by (simp add: ks_def)
  ultimately have d: "distinct (map label_of_index ks)" by (simp add: distinct_map)
  have "set (map label_of_index ks) = (\<lambda>e. label_of_index (month_index (date e))) ` set df"
    unfolding set_map set_ks by (simp add: image_image)
  also have "\<dots> = (\<lambda>e. month_label (date e)) ` set df"
    by (rule image_cong) (use v month_label_index in auto)
  finally have e: "set (sort (remdups (map (\<lambda>e. month_label (date e)) df))) =
      set (map label_of_index ks)" by simp
  have "sort (remdups (map (\<lambda>e. month_label (date e)) df)) = map label_of_index ks"
    by (rule sorted_distinct_set_unique[OF _ _ s d e]) simp_all
  then show ?thesis by (simp add: ks_def)
qed

lemma month_count_by_index:
  assumes v: "\<forall>e \<in> set df. valid_date (date e)" and k: "k \<in> (\<lambda>e. month_index (date e)) ` set df"
  shows "filter (\<lambda>e. month_label (date e) = label_of_index k \<and> P e) df =
         filter (\<lambda>e. month_index (date e) = k \<and> P e) df"
proof (rule filter_cong[OF refl])
  fix e assume e: "e \<in> set df"
  from k obtain e' where "e' \<in> set df" "k = month_index (date e')" by blast
  with v month_index_range have rk: "12000 \<le> k" "k < 120000" by auto
  from e v month_index_range have re: "12000 \<le> month_index (date e)" "month_index (date e) < 120000"
    by auto
  from e v have "month_label (date e) = label_of_index (month_index (date e))"
    by (simp add: month_label_index)
  then show "(month_label (date e) = label_of_index k \<and> P e) = (month_index (date e) = k \<and> P e)"
    using label_of_index_inj[OF re rk] by simp
qed

lemma phrase_counts_by_index:
  assumes v: "\<forall>e \<in> set df. valid_date (date e)"
  shows "phrase_counts_by_month df phrase =
     map (\<lambda>k. (label_of_index k, length (filter (\<lambda>e. month_index (date e) = k \<and>
                  phrase_matches_entry (fillna (entry_text e)) phrase) df)))
       (sort (remdups (map (\<lambda>e. month_index (date e)) df)))"
proof -
  have "k \<in> (\<lambda>e. month_index (date e)) ` set df"
    if "k \<in> set (sort (remdups (map (\<lambda>e. month_index (date e)) df)))" for k
    using that by simp
  then show ?thesis
    unfolding phrase_counts_by_month_eq sort_labels[OF v] map_map comp_def
    by (intro map_cong[OF refl]) (simp add: month_count_by_index[OF v])
qed

lemma scenario_valid: "\<forall>e \<in> set [entry3, entry1, entry2]. valid_date (date e)"
  by (simp add: valid_date_def entry1_def entry2_def entry3_def)

lemma scenario_index:
  "month_index (date entry1) = 24288" "month_index (date entry2) = 24288"
  "month_index (date entry3) = 24289"
  by (simp_all add: month_index_def entry1_def entry2_def entry3_def)

lemma scenario_labels:
  "label_of_index 24288 = ''2024-01''" "label_of_index 24289 = ''2024-02''"
  by (simp_all add: label_of_index_def dec2_def digit_chr_def)

lemma scenario_happy:
  "map (\<lambda>e. phrase_matches_entry (fillna (entry_text e)) ''happy'') [entry3, entry1, entry2]
     = [True, False, False]"
  by code_simp

section \<open>Claims about phrase counts\<close>

text \<open>
  C2, as first worded, has a match exactly when every word of the phrase appears. The
  empty phrase has no word, so every word of it appears in any text, and
  \<open>_phrase_matches_entry\<close> answers \<open>False\<close> for it: the guard on its first line rejects an
  empty phrase and an empty text before any word is looked at.
\<close>

theorem empty_phrase_counterexample:
  "all_words_appear [] ''felt OCD today''
   \<and> \<not> phrase_matches_entry ''felt OCD today'' []
   \<and> phrase_counts_by_month [entry1] [] = [(''2024-01'', 0)]"
  by (simp add: all_words_appear_def phrase_matches_entry_def phrase_counts_by_month_def
      month_label_entries)

text \<open>
  C2, amended. A match is: the text and the phrase are both non-empty and every
  whitespace-separated word of the phrase is a contiguous part of the text, up to case.
  The result has one pair for each month that has an entry, in chronological order
  (ascending month count), labelled with the month, and its count is the number of
  matching entries of that month, zero included.
\<close>

theorem phrase_counts_by_month_spec:
  assumes v: "\<forall>e \<in> set df. valid_date (date e)"
  shows "phrase_matches_entry text phrase =
           (text \<noteq> [] \<and> phrase \<noteq> [] \<and> all_words_appear phrase text)
       \<and> map fst (phrase_counts_by_month df phrase) =
           map label_of_index (sort (remdups (map (\<lambda>e. month_index (date e)) df)))
       \<and> map snd (phrase_counts_by_month df phrase) =
           map (\<lambda>k. length (filter (\<lambda>e. month_index (date e) = k \<and>
                  phrase_matches_entry (fillna (entry_text e)) phrase) df))
             (sort (remdups (map (\<lambda>e. month_index (date e)) df)))
       \<and> (\<forall>e \<in> set df. month_label (date e) = label_of_index (month_index (date e)))"
proof (intro conjI)
  show "phrase_matches_entry text phrase =
           (text \<noteq> [] \<and> phrase \<noteq> [] \<and> all_words_appear phrase text)"
    by (rule phrase_matches_entry_iff)
  show "map fst (phrase_counts_by_month df phrase) =
           map label_of_index (sort (remdups (map (\<lambda>e. month_index (date e)) df)))"
    by (simp add: phrase_counts_by_index[OF v] comp_def)
  show "map snd (phrase_counts_by_month df phrase) =
           map (\<lambda>k. length (filter (\<lambda>e. month_index (date e) = k \<and>
                  phrase_matches_entry (fillna (entry_text e)) phrase) df))
             (sort (remdups (map (\<lambda>e. month_index (date e)) df)))"
    by (simp add: phrase_counts_by_index[OF v] comp_def)
  show "\<forall>e \<in> set df. month_label (date e) = label_of_index (month_index (date e))"
    using v by (simp add: month_label_index)
qed

theorem phrase_counts_by_month_spec_witness:
  "valid_date (date entry3) \<and> valid_date (date entry1) \<and> valid_date (date entry2)
   \<and> map fst (phrase_counts_by_month [entry3, entry1, entry2] ''happy'') = [''2024-01'', ''2024-02'']
   \<and> map snd (phrase_counts_by_month [entry3, entry1, entry2] ''happy'') = [0, 1]"
  using phrase_counts_by_month_spec [OF scenario_valid, of "''happy''" "''happy''"] scenario_valid scenario_happy
  by (simp add: scenario_index scenario_labels)


text \<open>
  C10. \<open>_phrase_matches_entry\<close> is \<open>False\<close> when the text or the phrase is empty. A phrase
  that is non-empty and all whitespace has no word, and matches every non-empty text; the
  count by month for such a phrase is, for each month, the number of its entries with a
  non-empty text.
\<close>

theorem phrase_matches_edge_cases:
  "(text = [] \<or> phrase = [] \<longrightarrow> \<not> phrase_matches_entry text phrase)
   \<and> (phrase \<noteq> [] \<and> (\<forall>c \<in> set phrase. is_space c) \<and> text \<noteq> []
        \<longrightarrow> phrase_matches_entry text phrase)
   \<and> (phrase \<noteq> [] \<and> (\<forall>c \<in> set phrase. is_space c)
        \<longrightarrow> phrase_counts_by_month df phrase =
              map (\<lambda>m. (m, length (filter (\<lambda>e. month_label (date e) = m \<and>
                                              fillna (entry_text e) \<noteq> []) df)))
                (sort (remdups (map (\<lambda>e. month_label (date e)) df))))"
  by (auto simp: phrase_matches_entry_iff phrase_counts_by_month_eq all_words_appear_def
      split_ws_spaces)

theorem phrase_matches_edge_cases_witness:
  "phrase_matches_entry ''calm and happy'' '' ''
   \<and> \<not> phrase_matches_entry [] ''happy''
   \<and> \<not> phrase_matches_entry ''calm and happy'' []
   \<and> phrase_counts_by_month [entry3, entry1, entry2] '' '' = [(''2024-01'', 2), (''2024-02'', 1)]"
proof -
  have sp: "'' '' \<noteq> [] \<and> (\<forall>c \<in> set '' ''. is_space c)" by (simp add: is_space_def)
  have "fillna (entry_text entry1) \<noteq> []" "fillna (entry_text entry2) \<noteq> []"
    "fillna (entry_text entry3) \<noteq> []"
    by (simp_all add: fillna_def entry1_def entry2_def entry3_def)
  then show ?thesis
    using phrase_matches_edge_cases [of "''calm and happy''" "'' ''" "[entry3, entry1, entry2]"]
      phrase_matches_edge_cases [of "[]" "''happy''" "[]"] phrase_matches_edge_cases [of "''calm and happy''" "[]" "[]"] sp
    by (simp add: month_label_entries)
qed

section \<open>The excerpt of a group\<close>

lemma length_strip_le: "length (strip s) \<le> length s"
proof -
  have "length (dropWhile is_space (rev (dropWhile is_space s))) \<le> length (rev (dropWhile is_space s))"
    by (rule length_dropWhile_le)
  also have "\<dots> \<le> length s" by (simp add: length_dropWhile_le)
  finally show ?thesis by (simp add: strip_def)
qed

lemma rsplit1_length: "p \<in> set (rsplit1 x) \<Longrightarrow> length p \<le> length x"
proof -
  assume p: "p \<in> set (rsplit1 x)"
  define r where "r = dropWhile is_space (rev x)"
  define w where "w = takeWhile (\<lambda>c. \<not> is_space c) r"
  define rest where "rest = dropWhile is_space (dropWhile (\<lambda>c. \<not> is_space c) r)"
  have r: "length r \<le> length x"
    unfolding r_def using length_dropWhile_le[of is_space "rev x"] by simp
  have w: "length w \<le> length r" unfolding w_def by (rule length_takeWhile_le)
  have "length rest \<le> length (dropWhile (\<lambda>c. \<not> is_space c) r)"
    unfolding rest_def by (rule length_dropWhile_le)
  also have "\<dots> \<le> length r" by (rule length_dropWhile_le)
  finally have d: "length rest \<le> length r" .
  have eq: "rsplit1 x = (if r = [] then [] else if rest = [] then [rev w] else [rev rest, rev w])"
    unfolding rsplit1_def Let_def w_def rest_def r_def by (rule refl)
  from p have "p = rev w \<or> p = rev rest"
    unfolding eq by (cases "r = []"; cases "rest = []") auto
  then show ?thesis using r w d by auto
qed

lemma length_excerpt_le: "length (excerpt t n) \<le> min (length t) n"
proof (cases "t = [] \<or> length t \<le> n")
  case True
  then show ?thesis using length_strip_le[of t] by (auto simp: excerpt_def)
next
  case False
  then have n: "n < length t" by simp
  show ?thesis
  proof (cases "rsplit1 (take n t)")
    case Nil
    then show ?thesis using False n length_strip_le[of "take n t"] by (simp add: excerpt_def)
  next
    case (Cons s0 ss)
    then have "s0 \<in> set (rsplit1 (take n t))" by simp
    then have "length s0 \<le> length (take n t)" by (rule rsplit1_length)
    then show ?thesis using False n Cons length_strip_le[of s0] by (simp add: excerpt_def)
  qed
qed

lemma accumulate_total:
  "int (sum_list (map length parts)) = total_chars \<Longrightarrow> total_chars \<le> mx \<Longrightarrow>
     int (sum_list (map length (accumulate mx parts total_chars rows))) \<le> mx"
proof (induction rows arbitrary: parts total_chars)
  case Nil
  then show ?case by simp
next
  case (Cons row rows)
  let ?t = "strip (fillna (entry_text row))"
  let ?n = "min (int (length ?t)) (mx - total_chars)"
  let ?e = "excerpt ?t (nat ?n)"
  show ?case
  proof (cases "?t = []")
    case True
    then show ?thesis using Cons.IH[OF Cons.prems] by simp
  next
    case nt: False
    show ?thesis
    proof (cases "?n \<le> 0")
      case True
      with nt Cons.prems show ?thesis by (simp add: Let_def)
    next
      case pos: False
      have "length ?e \<le> nat ?n"
        using length_excerpt_le[of ?t "nat ?n"] by simp
      then have "int (length ?e) \<le> ?n" using pos by linarith
      then have le: "int (length ?e) \<le> mx - total_chars" by linarith
      have sum: "int (sum_list (map length (parts @ [?e]))) = total_chars + int (length ?e)"
        using Cons.prems by simp
      show ?thesis
      proof (cases "total_chars + int (length ?e) \<ge> mx")
        case True
        with nt pos sum le show ?thesis by (simp add: Let_def)
      next
        case False
        have "int (sum_list (map length (accumulate mx (parts @ [?e])
                 (total_chars + int (length ?e)) rows))) \<le> mx"
          by (rule Cons.IH[OF sum]) (use le in simp)
        with nt pos False show ?thesis by (simp add: Let_def)
      qed
    qed
  qed
qed

lemma length_join:
  "length (join sep ps) = sum_list (map length ps) + length sep * (length ps - 1)"
  by (induction sep ps rule: join.induct) simp_all

lemma grouped_excerpt_bound:
  assumes "(name, ex) \<in> set (build_grouped_excerpts df group_col mx)" "0 \<le> mx"
  shows "\<exists>parts. ex = join '' '' parts \<and> int (sum_list (map length parts)) \<le> mx
           \<and> int (length ex) \<le> mx + int (length parts - 1)"
proof -
  from assms(1) obtain rows where ex: "ex = join '' '' (accumulate mx [] 0 rows)"
    by (auto simp: build_grouped_excerpts_def)
  have s: "int (sum_list (map length (accumulate mx [] 0 rows))) \<le> mx"
    by (rule accumulate_total) (use assms(2) in simp_all)
  show ?thesis
    by (rule exI[of _ "accumulate mx [] 0 rows"]) (use ex s in \<open>simp add: length_join\<close>)
qed

lemma strip_no_space_ends:
  "t \<noteq> [] \<Longrightarrow> \<not> is_space (hd t) \<Longrightarrow> \<not> is_space (last t) \<Longrightarrow> strip t = t"
proof -
  assume t: "t \<noteq> []" "\<not> is_space (hd t)" "\<not> is_space (last t)"
  then have "dropWhile is_space t = t" by (cases t) auto
  moreover have "dropWhile is_space (rev t) = rev t"
    using t by (cases "rev t") (auto simp: last_rev hd_rev dest: arg_cong[where f = hd])
  ultimately show ?thesis by (simp add: strip_def)
qed

lemma strip_long_text: "strip long_text = long_text"
  by (rule strip_no_space_ends) (simp_all add: long_text_def is_space_def)

lemma length_long_text: "length long_text = 596"
  by (simp add: long_text_def)

lemma long_text_nonempty: "long_text \<noteq> []"
  using length_long_text by auto

lemma excerpt_long_text: "excerpt long_text 596 = long_text"
  by (simp add: excerpt_def length_long_text strip_long_text)

lemma strip_letter: "\<not> is_space c \<Longrightarrow> strip [c] = [c]"
  by (simp add: strip_def)

lemma strip_idem: "strip (strip s) = strip s"
proof -
  define a where "a = dropWhile is_space s"
  define b where "b = dropWhile is_space (rev a)"
  have sb: "strip s = rev b" by (simp add: strip_def a_def b_def)
  have b1: "dropWhile is_space b = b" by (simp add: b_def)
  have b2: "dropWhile is_space (rev b) = rev b"
  proof (cases "b = []")
    case True
    then show ?thesis by simp
  next
    case False
    have "rev a = takeWhile is_space (rev a) @ b" by (simp add: b_def)
    then have "a = rev b @ rev (takeWhile is_space (rev a))"
      by (metis rev_append rev_rev_ident)
    with False have h: "hd a = hd (rev b)" by (metis hd_append2 rev_is_Nil_conv)
    from False have "a \<noteq> []" by (auto simp: b_def)
    then have "\<not> is_space (hd a)" unfolding a_def by (rule hd_dropWhile)
    with h have "\<not> is_space (hd (rev b))" by simp
    with False show ?thesis by (cases "rev b") auto
  qed
  show ?thesis unfolding sb by (simp add: strip_def b1 b2)
qed

lemma accumulate_whole:
  assumes "strip (fillna (entry_text row)) = t" "t \<noteq> []" "int (length t) \<le> mx - total_chars"
  shows "accumulate mx parts total_chars (row # rows) =
           (if total_chars + int (length t) \<ge> mx then parts @ [t]
            else accumulate mx (parts @ [t]) (total_chars + int (length t)) rows)"
proof -
  have st: "strip t = t" using assms(1) strip_idem by metis
  have m: "min (int (length t)) (mx - total_chars) = int (length t)" using assms(3) by simp
  have pos: "\<not> int (length t) \<le> 0" using assms(2) by simp
  have "excerpt t (nat (int (length t))) = t" by (simp add: excerpt_def st)
  then show ?thesis using assms(1,2) m pos by (simp add: Let_def)
qed

lemma march_labels:
  "month_label (date long_entry) = ''2024-03''"
  "month_label (date (one_letter_entry c)) = ''2024-03''"
  by (simp_all add: long_entry_def one_letter_entry_def month_label_def dec2_def digit_chr_def)

lemma march_texts:
  "strip (fillna (entry_text long_entry)) = long_text"
  "\<not> is_space c \<Longrightarrow> strip (fillna (entry_text (one_letter_entry c))) = [c]"
  by (simp_all add: long_entry_def one_letter_entry_def fillna_def strip_long_text strip_letter)

lemma march_accumulate:
  "accumulate 600 [] 0 march_entries = [long_text, ''a'', ''b'', ''c'', ''d'']"
proof -
  have sp: "\<not> is_space CHR ''a''" "\<not> is_space CHR ''b''" "\<not> is_space CHR ''c''"
    "\<not> is_space CHR ''d''" by (simp_all add: is_space_def)
  have 1: "accumulate 600 [] 0 march_entries =
      accumulate 600 [long_text] 596 [one_letter_entry CHR ''a'', one_letter_entry CHR ''b'',
                    one_letter_entry CHR ''c'', one_letter_entry CHR ''d'']"
    unfolding march_entries_def
    by (subst accumulate_whole[OF march_texts(1) long_text_nonempty])
       (simp_all add: length_long_text)
  have 2: "accumulate 600 [long_text] 596 [one_letter_entry CHR ''a'', one_letter_entry CHR ''b'',
                    one_letter_entry CHR ''c'', one_letter_entry CHR ''d''] =
      accumulate 600 [long_text, ''a''] 597 [one_letter_entry CHR ''b'',
                    one_letter_entry CHR ''c'', one_letter_entry CHR ''d'']"
    by (subst accumulate_whole[OF march_texts(2)[OF sp(1)]]) simp_all
  have 3: "accumulate 600 [long_text, ''a''] 597 [one_letter_entry CHR ''b'',
                    one_letter_entry CHR ''c'', one_letter_entry CHR ''d''] =
      accumulate 600 [long_text, ''a'', ''b''] 598 [one_letter_entry CHR ''c'', one_letter_entry CHR ''d'']"
    by (subst accumulate_whole[OF march_texts(2)[OF sp(2)]]) simp_all
  have 4: "accumulate 600 [long_text, ''a'', ''b''] 598 [one_letter_entry CHR ''c'', one_letter_entry CHR ''d''] =
      accumulate 600 [long_text, ''a'', ''b'', ''c''] 599 [one_letter_entry CHR ''d'']"
    by (subst accumulate_whole[OF march_texts(2)[OF sp(3)]]) simp_all
  have 5: "accumulate 600 [long_text, ''a'', ''b'', ''c''] 599 [one_letter_entry CHR ''d''] =
      [long_text, ''a'', ''b'', ''c'', ''d'']"
    by (subst accumulate_whole[OF march_texts(2)[OF sp(4)]]) simp_all
  show ?thesis by (simp only: 1 2 3 4 5)
qed

section \<open>Claim about the excerpt budget\<close>

text \<open>
  C3. The fragments of a group never add up to more than the budget
  (\<open>grouped_excerpt_bound\<close>), but the spaces that join them are not counted: with the
  budget of 600, a text of 596 characters followed by four texts of one letter gives an
  excerpt of 604 characters, four over the budget, behind a last word of one character.
\<close>

theorem grouped_excerpt_exceeds_budget:
  "build_grouped_excerpts march_entries (\<lambda>e. month_label (date e)) EXCERPT_CHARS_PER_GROUP
     = [(''2024-03'', long_text @ '' a b c d'')]
   \<and> length (long_text @ '' a b c d'') = 604"
proof
  have lab: "map (\<lambda>e. month_label (date e)) march_entries =
      [''2024-03'', ''2024-03'', ''2024-03'', ''2024-03'', ''2024-03'']"
    by (simp add: march_entries_def march_labels)
  have flt: "filter (\<lambda>row. month_label (date row) = ''2024-03'') march_entries = march_entries"
    by (simp add: march_entries_def march_labels)
  show "build_grouped_excerpts march_entries (\<lambda>e. month_label (date e)) EXCERPT_CHARS_PER_GROUP
     = [(''2024-03'', long_text @ '' a b c d'')]"
    unfolding build_grouped_excerpts_def lab EXCERPT_CHARS_PER_GROUP_def
    by (simp add: first_seen_def flt march_accumulate)
  show "length (long_text @ '' a b c d'') = 604" by (simp add: length_long_text)
qed

section \<open>The summarizer fails soft\<close>

lemma dict_get_obj:
  "dict_get (JObj kvs) k dflt = Inr (case map_of kvs k of None \<Rightarrow> dflt | Some v \<Rightarrow> v)"
  by (simp add: dict_get_def)

lemma dict_get_other: "(\<And>kvs. d \<noteq> JObj kvs) \<Longrightarrow> dict_get d k dflt = Inl AttributeError"
  by (cases d) (auto simp: dict_get_def)

lemma message_content_malformed:
  assumes "reply_content js = None"
  shows "message_content js = Inl AttributeError \<or> message_content js = Inr JNull"
proof (cases "\<exists>kvs. js = JObj kvs")
  case False
  then have "dict_get js ''message'' (JObj []) = Inl AttributeError"
    by (intro dict_get_other) simp
  then show ?thesis by (simp add: message_content_def)
next
  case True
  then obtain kvs where js: "js = JObj kvs" by blast
  show ?thesis
  proof (cases "map_of kvs ''message''")
    case None
    then show ?thesis by (simp add: message_content_def js dict_get_obj)
  next
    case (Some m)
    show ?thesis
    proof (cases "\<exists>mkvs. m = JObj mkvs")
      case False
      then have "dict_get m ''content'' JNull = Inl AttributeError"
        by (intro dict_get_other) simp
      then show ?thesis by (simp add: message_content_def js dict_get_obj Some)
    next
      case True
      then obtain mkvs where m: "m = JObj mkvs" by blast
      from assms have "map_of mkvs ''content'' = None"
        by (simp add: reply_content_def js Some m split: option.splits)
      then show ?thesis by (simp add: message_content_def js dict_get_obj Some m)
    qed
  qed
qed

lemma message_content_well_formed:
  assumes "reply_content js = Some v"
  shows "message_content js = Inr v"
proof -
  from assms obtain kvs where js: "js = JObj kvs"
    by (cases js) (simp_all add: reply_content_def)
  from assms obtain m where mm: "map_of kvs ''message'' = Some m"
    by (cases "map_of kvs ''message''") (simp_all add: reply_content_def js)
  from assms obtain mkvs where m: "m = JObj mkvs"
    by (cases m) (simp_all add: reply_content_def js mm)
  from assms have "map_of mkvs ''content'' = Some v"
    by (simp add: reply_content_def js mm m split: option.splits)
  then show ?thesis by (simp add: message_content_def js dict_get_obj mm m)
qed

lemma ollama_chat_caught:
  "k \<noteq> [] \<Longrightarrow> ollama_request net prompt k = Inl e \<or> ollama_request net prompt k = Inr JNull \<Longrightarrow>
     ollama_chat net prompt (Some k) calls = (Inr JNull, Suc calls)"
  by (auto simp: ollama_chat_def)

text \<open>
  C6, as first worded, returns nothing for every status that is not a success. The source
  asks \<open>raise_for_status\<close>, which raises from 400 to 599 only: an answer with status 301
  whose body has a content is returned to the caller.
\<close>

theorem redirect_status_counterexample:
  "\<not> success_status 301
   \<and> example_net ''moved'' () =
       Some (Response 301 (Some (JObj [(''message'', JObj [(''content'', JStr ''moved'')])])))
   \<and> ollama_chat example_net () (Some ''moved'') 0 = (Inr (JStr ''moved''), 1)"
  by (simp add: success_status_def example_net_def ollama_chat_def ollama_request_def
      raise_for_status_def message_content_def dict_get_def)

text \<open>
  C6, amended. Without a key (\<open>None\<close> or the empty string) \<open>ollama_chat\<close> returns \<open>None\<close>
  and makes no call. With a key it makes one call and returns \<open>None\<close> when
  \<open>requests.post\<close> raises, when the status is from 400 to 599, when the body is not JSON
  and when the body has no \<open>message.content\<close>; with any other status and a body that has a
  \<open>message.content\<close> it returns that content. No exception leaves it.
\<close>

theorem ollama_chat_fails_soft:
  "(api_key = None \<or> api_key = Some []
      \<longrightarrow> ollama_chat net prompt api_key calls = (Inr JNull, calls))
   \<and> (api_key = Some k \<and> k \<noteq> [] \<and>
        (net k prompt = None \<or>
         (\<exists>r. net k prompt = Some r \<and>
              ((400 \<le> status_code r \<and> status_code r < 600) \<or> json_body r = None \<or>
               (\<exists>js. json_body r = Some js \<and> reply_content js = None))))
      \<longrightarrow> ollama_chat net prompt api_key calls = (Inr JNull, Suc calls))
   \<and> (api_key = Some k \<and> k \<noteq> [] \<and> net k prompt = Some (Response status (Some js)) \<and>
        \<not> (400 \<le> status \<and> status < 600) \<and> reply_content js = Some v
      \<longrightarrow> ollama_chat net prompt api_key calls = (Inr v, Suc calls))
   \<and> (\<exists>v. fst (ollama_chat net prompt api_key calls) = Inr v)"
proof (intro conjI impI)
  assume "api_key = None \<or> api_key = Some []"
  then show "ollama_chat net prompt api_key calls = (Inr JNull, calls)"
    by (auto simp: ollama_chat_def)
next
  assume a: "api_key = Some k \<and> k \<noteq> [] \<and>
        (net k prompt = None \<or>
         (\<exists>r. net k prompt = Some r \<and>
              ((400 \<le> status_code r \<and> status_code r < 600) \<or> json_body r = None \<or>
               (\<exists>js. json_body r = Some js \<and> reply_content js = None))))"
  have "(\<exists>e. ollama_request net prompt k = Inl e) \<or> ollama_request net prompt k = Inr JNull"
  proof (cases "net k prompt")
    case None
    then show ?thesis by (simp add: ollama_request_def)
  next
    case (Some r)
    show ?thesis
    proof (cases "raise_for_status r")
      case True
      with Some show ?thesis by (simp add: ollama_request_def)
    next
      case ok: False
      show ?thesis
      proof (cases "json_body r")
        case None
        with Some ok show ?thesis by (simp add: ollama_request_def)
      next
        case body: (Some js')
        with a Some ok have "reply_content js' = None" by (auto simp: raise_for_status_def)
        then show ?thesis
          using message_content_malformed[of js'] Some ok body by (auto simp: ollama_request_def)
      qed
    qed
  qed
  then show "ollama_chat net prompt api_key calls = (Inr JNull, Suc calls)"
    using a ollama_chat_caught[of k net prompt _ calls] by blast
next
  assume a: "api_key = Some k \<and> k \<noteq> [] \<and> net k prompt = Some (Response status (Some js)) \<and>
        \<not> (400 \<le> status \<and> status < 600) \<and> reply_content js = Some v"
  then have "ollama_request net prompt k = Inr v"
    by (simp add: ollama_request_def raise_for_status_def message_content_well_formed)
  with a show "ollama_chat net prompt api_key calls = (Inr v, Suc calls)"
    by (auto simp: ollama_chat_def)
next
  show "\<exists>v. fst (ollama_chat net prompt api_key calls) = Inr v"
    by (cases "ollama_request net prompt (the api_key)") (simp_all add: ollama_chat_def)
qed

theorem ollama_chat_fails_soft_witness:
  "ollama_chat example_net () None 0 = (Inr JNull, 0)
   \<and> ollama_chat example_net () (Some ''denied'') 0 = (Inr JNull, 1)
   \<and> ollama_chat example_net () (Some ''nomsg'') 0 = (Inr JNull, 1)
   \<and> ollama_chat example_net () (Some ''good'') 0 = (Inr (JStr ''fine''), 1)"
proof -
  have n: "example_net ''denied'' () = Some (Response 401 None)"
    "example_net ''nomsg'' () = Some (Response 200 (Some (JObj [(''done'', JBool True)])))"
    "example_net ''good'' () =
       Some (Response 200 (Some (JObj [(''message'', JObj [(''content'', JStr ''fine'')])])))"
    by (simp_all add: example_net_def)
  have r: "reply_content (JObj [(''done'', JBool True)]) = None"
    "reply_content (JObj [(''message'', JObj [(''content'', JStr ''fine'')])]) = Some (JStr ''fine'')"
    by (simp_all add: reply_content_def)
  show ?thesis
    using ollama_chat_fails_soft [of None example_net "()" 0 "''x''" 0 JNull JNull]
      ollama_chat_fails_soft [of "Some ''denied''" example_net "()" 0 "''denied''" 0 JNull JNull]
      ollama_chat_fails_soft [of "Some ''nomsg''" example_net "()" 0 "''nomsg''" 0 JNull JNull]
      ollama_chat_fails_soft [of "Some ''good''" example_net "()" 0 "''good''" 200
          "JObj [(''message'', JObj [(''content'', JStr ''fine'')])]" "JStr ''fine''"]
      n r
    by simp
qed

section \<open>The JSON extractor\<close>

lemma find_sub_first:
  "find_sub pat s = Some i \<Longrightarrow>
     i \<le> length s \<and> prefix pat (drop i s) \<and> (\<forall>j<i. \<not> prefix pat (drop j s))"
proof (induction s arbitrary: i)
  case Nil
  then show ?case by (simp split: if_splits)
next
  case (Cons c cs)
  show ?case
  proof (cases "prefix pat (c # cs)")
    case True
    with Cons.prems show ?thesis by simp
  next
    case False
    with Cons.prems obtain i' where i': "find_sub pat cs = Some i'" "i = Suc i'"
      by (auto split: option.splits)
    from Cons.IH[OF i'(1)] have ih: "i' \<le> length cs" "prefix pat (drop i' cs)"
      "\<forall>j<i'. \<not> prefix pat (drop j cs)" by simp_all
    have "\<not> prefix pat (drop j (c # cs))" if "j < i" for j
    proof (cases j)
      case 0
      with False show ?thesis by simp
    next
      case (Suc j')
      with that i'(2) ih(3) show ?thesis by simp
    qed
    with ih i'(2) show ?thesis by simp
  qed
qed

lemma find_sub_split:
  "find_sub pat s = Some i \<Longrightarrow> s = take i s @ pat @ drop (i + length pat) s"
proof -
  assume "find_sub pat s = Some i"
  then have "prefix pat (drop i s)" using find_sub_first by blast
  then obtain z where z: "drop i s = pat @ z" by (auto simp: prefix_def)
  then have "drop (length pat) (drop i s) = z" by simp
  then have "drop (i + length pat) s = z" by (simp add: add.commute)
  with z show ?thesis by (metis append_take_drop_id)
qed

lemma length_fence: "length fence = 3"
  by (simp add: fence_def)

lemma find_sub_found:
  "i \<le> length s \<Longrightarrow> prefix pat (drop i s) \<Longrightarrow> (\<forall>j<i. \<not> prefix pat (drop j s)) \<Longrightarrow>
     find_sub pat s = Some i"
proof (induction s arbitrary: i)
  case Nil
  then show ?case by simp
next
  case (Cons c cs)
  show ?case
  proof (cases "prefix pat (c # cs)")
    case True
    have "i = 0"
    proof (rule ccontr)
      assume "i \<noteq> 0"
      then have "0 < i" by simp
      with Cons.prems(3) have "\<not> prefix pat (drop 0 (c # cs))" by blast
      with True show False by simp
    qed
    with True show ?thesis by simp
  next
    case False
    with Cons.prems(2) have "i \<noteq> 0" by (cases i) auto
    then obtain i' where i: "i = Suc i'" by (cases i) auto
    have "\<forall>j<i'. \<not> prefix pat (drop j cs)"
    proof (intro allI impI)
      fix j assume "j < i'"
      then have "Suc j < i" by (simp add: i)
      with Cons.prems(3) have "\<not> prefix pat (drop (Suc j) (c # cs))" by blast
      then show "\<not> prefix pat (drop j cs)" by simp
    qed
    moreover have "i' \<le> length cs" "prefix pat (drop i' cs)"
      using Cons.prems(1,2) by (simp_all add: i)
    ultimately have "find_sub pat cs = Some i'" using Cons.IH by blast
    with False show ?thesis by (simp add: i)
  qed
qed

lemma find_sub_at:
  assumes "\<forall>j < length u. \<not> prefix pat (drop j (u @ pat @ v))"
  shows "find_sub pat (u @ pat @ v) = Some (length u)"
  by (rule find_sub_found) (use assms in simp_all)

lemma dropWhile_all_then_not:
  assumes "\<forall>c \<in> set ws. P c" "r = [] \<or> \<not> P (hd r)"
  shows "dropWhile P (ws @ r) = r"
proof -
  have "dropWhile P (ws @ r) = dropWhile P r"
    using assms(1) by (simp add: dropWhile_append2)
  also have "\<dots> = r" using assms(2) by (cases r) auto
  finally show ?thesis .
qed

lemma is_space_backquote: "\<not> is_space (CHR 0x60)"
  by (simp add: is_space_def)

lemma fence_group_iff:
  "fence_group tagged reply = Some g \<longleftrightarrow>
     (\<exists>u tag ws v. reply = u @ fence @ tag @ ws @ g @ fence @ v
        \<and> (\<forall>j < length u. \<not> prefix fence (drop j reply))
        \<and> (tagged \<and> tag = ''json'' \<or> tag = [] \<and> \<not> (tagged \<and> prefix ''json'' (ws @ g @ fence @ v)))
        \<and> (\<forall>c \<in> set ws. is_space c) \<and> (g = [] \<or> \<not> is_space (hd g))
        \<and> (\<forall>j < length g. \<not> prefix fence (drop j (g @ fence @ v))))"
proof
  assume assms: "fence_group tagged reply = Some g"
  then obtain i where i: "find_sub fence reply = Some i"
    by (auto simp: fence_group_def split: option.splits)
  define rest where "rest = drop (i + 3) reply"
  define rest1 where "rest1 = (if tagged \<and> prefix ''json'' rest then drop 4 rest else rest)"
  define tag where "tag = (if tagged \<and> prefix ''json'' rest then ''json'' else [])"
  define rest2 where "rest2 = dropWhile is_space rest1"
  define ws where "ws = takeWhile is_space rest1"
  from assms i obtain q where q: "find_sub fence rest2 = Some q" and g: "g = take q rest2"
    unfolding fence_group_def Let_def rest2_def rest1_def rest_def
    by (auto split: option.splits)
  define v where "v = drop (q + 3) rest2"
  have 1: "reply = take i reply @ fence @ rest"
    using find_sub_split[OF i] by (simp add: length_fence rest_def)
  have 2: "rest = tag @ rest1"
    unfolding tag_def rest1_def by (auto simp: prefix_def)
  have 3: "rest1 = ws @ rest2" by (simp add: ws_def rest2_def)
  have 4: "rest2 = g @ fence @ v"
    using find_sub_split[OF q] by (simp add: length_fence g v_def)
  have u: "\<forall>j < length (take i reply). \<not> prefix fence (drop j reply)"
    using find_sub_first[OF i] by simp
  have gq: "length g = q" using find_sub_first[OF q] by (simp add: g)
  have gg: "\<forall>j < length g. \<not> prefix fence (drop j (g @ fence @ v))"
    using find_sub_first[OF q] unfolding gq 4[symmetric] by simp
  have t: "tagged \<and> tag = ''json'' \<or> tag = [] \<and> \<not> (tagged \<and> prefix ''json'' (ws @ g @ fence @ v))"
  proof (cases "tagged \<and> prefix ''json'' rest")
    case True
    then show ?thesis by (simp add: tag_def)
  next
    case False
    then have "tag = []" "rest1 = rest" by (auto simp: tag_def rest1_def)
    with False 3 4 show ?thesis by simp
  qed
  have w: "\<forall>c \<in> set ws. is_space c" unfolding ws_def by (meson set_takeWhileD)
  have h: "g = [] \<or> \<not> is_space (hd g)"
  proof (cases g)
    case Nil
    then show ?thesis by simp
  next
    case (Cons c cs)
    then have "rest2 \<noteq> []" "hd rest2 = c" using 4 by simp_all
    then have "\<not> is_space c" using hd_dropWhile[of is_space rest1] unfolding rest2_def by blast
    with Cons show ?thesis by simp
  qed
  have "reply = take i reply @ fence @ tag @ ws @ g @ fence @ v"
    using 1 2 3 4 by simp
  with t w u gg h show "\<exists>u tag ws v. reply = u @ fence @ tag @ ws @ g @ fence @ v
        \<and> (\<forall>j < length u. \<not> prefix fence (drop j reply))
        \<and> (tagged \<and> tag = ''json'' \<or> tag = [] \<and> \<not> (tagged \<and> prefix ''json'' (ws @ g @ fence @ v)))
        \<and> (\<forall>c \<in> set ws. is_space c) \<and> (g = [] \<or> \<not> is_space (hd g))
        \<and> (\<forall>j < length g. \<not> prefix fence (drop j (g @ fence @ v)))" by blast
next
  assume "\<exists>u tag ws v. reply = u @ fence @ tag @ ws @ g @ fence @ v
        \<and> (\<forall>j < length u. \<not> prefix fence (drop j reply))
        \<and> (tagged \<and> tag = ''json'' \<or> tag = [] \<and> \<not> (tagged \<and> prefix ''json'' (ws @ g @ fence @ v)))
        \<and> (\<forall>c \<in> set ws. is_space c) \<and> (g = [] \<or> \<not> is_space (hd g))
        \<and> (\<forall>j < length g. \<not> prefix fence (drop j (g @ fence @ v)))"
  then obtain u tag ws v where reply: "reply = u @ fence @ tag @ ws @ g @ fence @ v"
    and first: "\<forall>j < length u. \<not> prefix fence (drop j reply)"
    and t: "tagged \<and> tag = ''json'' \<or> tag = [] \<and> \<not> (tagged \<and> prefix ''json'' (ws @ g @ fence @ v))"
    and w: "\<forall>c \<in> set ws. is_space c" and h: "g = [] \<or> \<not> is_space (hd g)"
    and gg: "\<forall>j < length g. \<not> prefix fence (drop j (g @ fence @ v))" by blast
  have i: "find_sub fence reply = Some (length u)"
    using find_sub_at[of u fence "tag @ ws @ g @ fence @ v"] first unfolding reply by simp
  have rest: "drop (length u + 3) reply = tag @ ws @ g @ fence @ v"
    unfolding reply by (simp add: length_fence)
  have rest1: "(if tagged \<and> prefix ''json'' (tag @ ws @ g @ fence @ v)
                then drop 4 (tag @ ws @ g @ fence @ v) else tag @ ws @ g @ fence @ v)
               = ws @ g @ fence @ v"
    using t by auto
  have "g @ fence @ v = [] \<or> \<not> is_space (hd (g @ fence @ v))"
    using h is_space_backquote by (cases g) (simp_all add: fence_def)
  then have rest2: "dropWhile is_space (ws @ g @ fence @ v) = g @ fence @ v"
    using dropWhile_all_then_not[OF w, of "g @ fence @ v"] by simp
  have q: "find_sub fence (g @ fence @ v) = Some (length g)"
    using find_sub_at[of g fence v] gg by simp
  show "fence_group tagged reply = Some g"
    unfolding fence_group_def Let_def i option.case rest rest1 rest2 q by simp
qed

lemma brace_span_iff:
  "brace_span reply = Some s \<longleftrightarrow>
     (\<exists>u b v. reply = u @ s @ v \<and> s = CHR ''{'' # b @ [CHR ''}'']
              \<and> CHR ''{'' \<notin> set u \<and> CHR ''}'' \<notin> set v)"
proof
  assume a: "brace_span reply = Some s"
  define r where "r = dropWhile (\<lambda>c. c \<noteq> CHR ''{'') reply"
  define u where "u = takeWhile (\<lambda>c. c \<noteq> CHR ''{'') reply"
  define d where "d = dropWhile (\<lambda>c. c \<noteq> CHR ''}'') (rev (tl r))"
  define t where "t = takeWhile (\<lambda>c. c \<noteq> CHR ''}'') (rev (tl r))"
  from a have rne: "r \<noteq> []" and dne: "rev d \<noteq> []" and s: "s = CHR ''{'' # rev d"
    unfolding brace_span_def Let_def r_def d_def by (auto split: if_splits)
  have "hd r = CHR ''{''" using rne hd_dropWhile[of "\<lambda>c. c \<noteq> CHR ''{''" reply]
    unfolding r_def by blast
  with rne have r: "r = CHR ''{'' # tl r" by (cases r) auto
  have ru: "reply = u @ r" by (simp add: u_def r_def)
  have "rev (tl r) = t @ d" by (simp add: t_def d_def)
  then have tl: "tl r = rev d @ rev t" by (metis rev_append rev_rev_ident)
  from dne have "d \<noteq> []" by simp
  then have "hd d = CHR ''}''"
    using hd_dropWhile[of "\<lambda>c. c \<noteq> CHR ''}''" "rev (tl r)"] unfolding d_def by blast
  with \<open>d \<noteq> []\<close> have "rev d = rev (tl d) @ [CHR ''}'']" by (cases d) auto
  with s have sb: "s = CHR ''{'' # rev (tl d) @ [CHR ''}'']" by simp
  have nu: "CHR ''{'' \<notin> set u" unfolding u_def using set_takeWhileD by fastforce
  have nv: "CHR ''}'' \<notin> set (rev t)" unfolding t_def using set_takeWhileD by fastforce
  have "reply = u @ s @ rev t" using ru r tl s by (metis append_Cons)
  with sb nu nv show "\<exists>u b v. reply = u @ s @ v \<and> s = CHR ''{'' # b @ [CHR ''}'']
              \<and> CHR ''{'' \<notin> set u \<and> CHR ''}'' \<notin> set v" by blast
next
  assume "\<exists>u b v. reply = u @ s @ v \<and> s = CHR ''{'' # b @ [CHR ''}'']
              \<and> CHR ''{'' \<notin> set u \<and> CHR ''}'' \<notin> set v"
  then obtain u b v where reply: "reply = u @ (CHR ''{'' # b @ [CHR ''}''] @ v)"
    and s: "s = CHR ''{'' # b @ [CHR ''}'']"
    and nu: "CHR ''{'' \<notin> set u" and nv: "CHR ''}'' \<notin> set v" by auto
  have r: "dropWhile (\<lambda>c. c \<noteq> CHR ''{'') reply = CHR ''{'' # b @ [CHR ''}''] @ v"
    unfolding reply using nu by (subst dropWhile_append2) auto
  have "rev (b @ [CHR ''}''] @ v) = rev v @ (CHR ''}'' # rev b)" by simp
  moreover have "dropWhile (\<lambda>c. c \<noteq> CHR ''}'') (rev v @ (CHR ''}'' # rev b)) = CHR ''}'' # rev b"
    using nv by (subst dropWhile_append2) auto
  ultimately have "rev (dropWhile (\<lambda>c. c \<noteq> CHR ''}'') (rev (b @ [CHR ''}''] @ v))) = b @ [CHR ''}'']"
    by simp
  then show "brace_span reply = Some s"
    unfolding brace_span_def Let_def r s by simp
qed

lemma extract_first_parse:
  "extract_json_from_reply loads reply0 =
     (let reply = strip (case reply0 of None \<Rightarrow> [] | Some s \<Rightarrow> s)
      in first_parse loads
           [map_option strip (fence_group True reply), map_option strip (fence_group False reply),
            brace_span reply, Some reply])"
  unfolding extract_json_from_reply_def Let_def
  by (cases "fence_group True (strip (case reply0 of None \<Rightarrow> [] | Some s \<Rightarrow> s))";
      cases "fence_group False (strip (case reply0 of None \<Rightarrow> [] | Some s \<Rightarrow> s))";
      cases "brace_span (strip (case reply0 of None \<Rightarrow> [] | Some s \<Rightarrow> s))")
     (simp_all add: try_loads_def split: sum.splits)

lemma first_parse_all_fail:
  "(\<forall>c \<in> set cands. case c of None \<Rightarrow> True | Some x \<Rightarrow> loads x = Inl JSONDecodeError)
     \<Longrightarrow> first_parse loads cands = Inr JNull"
  by (induction loads cands rule: first_parse.induct) auto

lemma first_parse_skips:
  "(\<forall>c \<in> set before. case c of None \<Rightarrow> True | Some x \<Rightarrow> loads x = Inl JSONDecodeError)
     \<Longrightarrow> first_parse loads (before @ cs) = first_parse loads cs"
  by (induction loads before rule: first_parse.induct) auto

lemma find_sub_replicate:
  "pat \<noteq> [] \<Longrightarrow> hd pat \<noteq> c \<Longrightarrow> find_sub pat (replicate n c) = None"
proof (induction n)
  case 0
  then show ?case by simp
next
  case (Suc n)
  from Suc.prems have "\<not> prefix pat (c # replicate n c)"
    by (cases pat) auto
  with Suc show ?case by simp
qed

lemma strip_replicate: "\<not> is_space c \<Longrightarrow> strip (replicate n c) = replicate n c"
proof -
  assume c: "\<not> is_space c"
  have d: "dropWhile is_space (replicate n c) = replicate n c"
    using c by (cases n) simp_all
  show ?thesis unfolding strip_def d rev_replicate d by simp
qed

lemma extract_long_number:
  "extract_json_from_reply loads (Some long_number) =
     (case loads long_number of
        Inr v \<Rightarrow> Inr v
      | Inl e \<Rightarrow> if e = JSONDecodeError then Inr JNull else Inl e)"
proof -
  have s: "strip long_number = long_number"
    unfolding long_number_def by (rule strip_replicate) (simp add: is_space_def)
  have f: "fence_group tagged long_number = None" for tagged
    unfolding fence_group_def long_number_def
    by (simp add: find_sub_replicate fence_def)
  have b: "brace_span long_number = None"
    unfolding brace_span_def long_number_def Let_def
    by (simp add: dropWhile_eq_Nil_conv)
  show ?thesis
    unfolding extract_json_from_reply_def Let_def option.case s f b
    by (simp add: try_loads_def split: sum.splits)
qed

lemma example_loads_long_number: "example_loads long_number = Inl ValueError"
  by (simp add: example_loads_def long_number_def)

text \<open>
  C8, as first worded, takes the first top-level brace span in its second step. The
  pattern is greedy: in a reply with two objects and text between them the first top-level
  span is the first object, which parses, while the source tries the text from the first
  opening brace to the last closing brace, which does not, and returns nothing.
\<close>

theorem greedy_brace_span_counterexample:
  "first_top_level_span two_objects_reply = Some (take 8 two_objects_reply)
   \<and> example_loads (take 8 two_objects_reply) = Inr (JObj [(''a'', JNum 1)])
   \<and> extract_stated example_loads (Some two_objects_reply) = Inr (JObj [(''a'', JNum 1)])
   \<and> extract_json_from_reply example_loads (Some two_objects_reply) = Inr JNull"
  by code_simp

text \<open>
  C8, amended. The extractor tries, in order: the trimmed content of the first fenced
  block, a tag \<open>json\<close> after the opening fence left out; the trimmed content of the first
  fenced block as it is; the text from the first opening brace to the last closing brace;
  the whole trimmed reply. A candidate that is not there, or on which \<open>json.loads\<close>
  raises \<open>JSONDecodeError\<close>, is passed over. The first other candidate decides: the
  extractor returns its value, or the exception that \<open>json.loads\<close> raises on it leaves the
  extractor. When every candidate is passed over the extractor returns nothing.

  The content of the first fenced block is \<open>g\<close> exactly when the reply is \<open>u\<close>, a fence,
  the tag, whitespace \<open>ws\<close>, \<open>g\<close>, a fence and \<open>v\<close>, where no fence starts in \<open>u\<close>, the tag
  is \<open>json\<close> if the step allows a tag and \<open>json\<close> follows the opening fence and is empty
  otherwise, \<open>g\<close> does not start with whitespace, and no fence starts in \<open>g\<close>.
\<close>

theorem extract_json_order:
  "extract_json_from_reply loads reply0 =
     (let reply = strip (case reply0 of None \<Rightarrow> [] | Some s \<Rightarrow> s)
      in first_parse loads
           [map_option strip (fence_group True reply), map_option strip (fence_group False reply),
            brace_span reply, Some reply])
   \<and> (fence_group tagged reply = Some g \<longleftrightarrow>
        (\<exists>u tag ws v. reply = u @ fence @ tag @ ws @ g @ fence @ v
           \<and> (\<forall>j < length u. \<not> prefix fence (drop j reply))
           \<and> (tagged \<and> tag = ''json''
               \<or> tag = [] \<and> \<not> (tagged \<and> prefix ''json'' (ws @ g @ fence @ v)))
           \<and> (\<forall>c \<in> set ws. is_space c) \<and> (g = [] \<or> \<not> is_space (hd g))
           \<and> (\<forall>j < length g. \<not> prefix fence (drop j (g @ fence @ v)))))
   \<and> (brace_span reply = Some s \<longleftrightarrow>
        (\<exists>u b v. reply = u @ s @ v \<and> s = CHR ''{'' # b @ [CHR ''}'']
              \<and> CHR ''{'' \<notin> set u \<and> CHR ''}'' \<notin> set v))
   \<and> ((\<forall>c \<in> set cands. case c of None \<Rightarrow> True | Some x \<Rightarrow> loads x = Inl JSONDecodeError)
        \<longrightarrow> first_parse loads cands = Inr JNull)
   \<and> ((\<forall>c \<in> set before. case c of None \<Rightarrow> True | Some x \<Rightarrow> loads x = Inl JSONDecodeError)
        \<and> loads x = Inr y
        \<longrightarrow> first_parse loads (before @ Some x # after) = Inr y)
   \<and> ((\<forall>c \<in> set before. case c of None \<Rightarrow> True | Some x \<Rightarrow> loads x = Inl JSONDecodeError)
        \<and> loads x = Inl e \<and> e \<noteq> JSONDecodeError
        \<longrightarrow> first_parse loads (before @ Some x # after) = Inl e)"
proof (intro conjI impI)
  show "extract_json_from_reply loads reply0 =
     (let reply = strip (case reply0 of None \<Rightarrow> [] | Some s \<Rightarrow> s)
      in first_parse loads
           [map_option strip (fence_group True reply), map_option strip (fence_group False reply),
            brace_span reply, Some reply])"
    by (rule extract_first_parse)
  show "fence_group tagged reply = Some g \<longleftrightarrow>
        (\<exists>u tag ws v. reply = u @ fence @ tag @ ws @ g @ fence @ v
           \<and> (\<forall>j < length u. \<not> prefix fence (drop j reply))
           \<and> (tagged \<and> tag = ''json''
               \<or> tag = [] \<and> \<not> (tagged \<and> prefix ''json'' (ws @ g @ fence @ v)))
           \<and> (\<forall>c \<in> set ws. is_space c) \<and> (g = [] \<or> \<not> is_space (hd g))
           \<and> (\<forall>j < length g. \<not> prefix fence (drop j (g @ fence @ v))))"
    by (rule fence_group_iff)
  show "brace_span reply = Some s \<longleftrightarrow>
        (\<exists>u b v. reply = u @ s @ v \<and> s = CHR ''{'' # b @ [CHR ''}'']
              \<and> CHR ''{'' \<notin> set u \<and> CHR ''}'' \<notin> set v)"
    by (rule brace_span_iff)
next
  assume "\<forall>c \<in> set cands. case c of None \<Rightarrow> True | Some x \<Rightarrow> loads x = Inl JSONDecodeError"
  then show "first_parse loads cands = Inr JNull" by (rule first_parse_all_fail)
next
  assume "(\<forall>c \<in> set before. case c of None \<Rightarrow> True | Some x \<Rightarrow> loads x = Inl JSONDecodeError)
        \<and> loads x = Inr y"
  then show "first_parse loads (before @ Some x # after) = Inr y"
    by (simp add: first_parse_skips)
next
  assume "(\<forall>c \<in> set before. case c of None \<Rightarrow> True | Some x \<Rightarrow> loads x = Inl JSONDecodeError)
        \<and> loads x = Inl e \<and> e \<noteq> JSONDecodeError"
  then show "first_parse loads (before @ Some x # after) = Inl e"
    by (simp add: first_parse_skips)
qed

theorem extract_json_order_witness:
  \<open>fence_group True fenced_reply = Some ''{"a": 1} ''
   \<and> brace_span fenced_reply = Some (drop 8 fenced_reply)
   \<and> example_loads (drop 8 fenced_reply) = Inl JSONDecodeError
   \<and> extract_json_from_reply example_loads (Some fenced_reply) = Inr (JObj [(''a'', JNum 1)])
   \<and> first_parse example_loads [None, Some two_objects_reply] = Inr JNull
   \<and> first_parse example_loads ([None, Some two_objects_reply] @ Some ''{"b": 2}'' # []) =
       Inr (JObj [(''b'', JNum 2)])
   \<and> first_parse example_loads ([None] @ Some long_number # [Some ''{"b": 2}'']) = Inl ValueError
   \<and> extract_json_from_reply example_loads (Some long_number) = Inl ValueError\<close>
proof -
  note order = extract_json_order [where loads = example_loads]
  note c1 = order [THEN conjunct1]
  note c2 = order [THEN conjunct2, THEN conjunct1]
  note c4 = order [THEN conjunct2, THEN conjunct2, THEN conjunct2, THEN conjunct1]
  note c5 = order [THEN conjunct2, THEN conjunct2, THEN conjunct2, THEN conjunct2, THEN conjunct1]
  note c6 = order [THEN conjunct2, THEN conjunct2, THEN conjunct2, THEN conjunct2, THEN conjunct2]
  have a: "(let reply = strip (case Some fenced_reply of None \<Rightarrow> [] | Some s \<Rightarrow> s)
      in first_parse example_loads
           [map_option strip (fence_group True reply), map_option strip (fence_group False reply),
            brace_span reply, Some reply]) = Inr (JObj [(''a'', JNum 1)])"
    by code_simp
  have b: \<open>example_loads two_objects_reply = Inl JSONDecodeError\<close>
    \<open>example_loads ''{"b": 2}'' = Inr (JObj [(''b'', JNum 2)])\<close>
    \<open>example_loads (drop 8 fenced_reply) = Inl JSONDecodeError\<close>
    \<open>brace_span fenced_reply = Some (drop 8 fenced_reply)\<close>
    by code_simp+
  have d: \<open>fenced_reply = [] @ fence @ ''json'' @ '' '' @ ''{"a": 1} '' @ fence @ '' or {"b": 2}''\<close>
    by (simp add: fenced_reply_def)
  have g: \<open>\<forall>j < length ''{"a": 1} ''.
             \<not> prefix fence (drop j (''{"a": 1} '' @ fence @ '' or {"b": 2}''))\<close>
    by (simp add: fence_def All_less_Suc)
  have w: \<open>\<forall>c \<in> set '' ''. is_space c\<close> \<open>\<not> is_space (hd ''{"a": 1} '')\<close>
    by (simp_all add: is_space_def)
  have f: \<open>fence_group True fenced_reply = Some ''{"a": 1} ''\<close>
  proof (rule iffD2 [OF c2], intro exI conjI)
    show \<open>fenced_reply = [] @ fence @ ''json'' @ '' '' @ ''{"a": 1} '' @ fence @ '' or {"b": 2}''\<close>
      by (rule d)
    show \<open>\<forall>j < length ''{"a": 1} ''.
             \<not> prefix fence (drop j (''{"a": 1} '' @ fence @ '' or {"b": 2}''))\<close>
      by (rule g)
    show \<open>\<forall>c \<in> set '' ''. is_space c\<close> by (rule w)
    show \<open>''{"a": 1} '' = [] \<or> \<not> is_space (hd ''{"a": 1} '')\<close> using w(2) by simp
    show "\<forall>j<length []. \<not> prefix fence (drop j fenced_reply)" by simp
    show \<open>True \<and> ''json'' = ''json'' \<or>
          ''json'' = [] \<and> \<not> (True \<and> prefix ''json'' ('' '' @ ''{"a": 1} '' @ fence @ '' or {"b": 2}''))\<close>
      by simp
  qed
  have e: "extract_json_from_reply example_loads (Some fenced_reply) = Inr (JObj [(''a'', JNum 1)])"
    using c1 [of "Some fenced_reply"] a by simp
  have n: "first_parse example_loads [None, Some two_objects_reply] = Inr JNull"
    using c4 [of "[None, Some two_objects_reply]"] b(1) by simp
  have s: \<open>first_parse example_loads ([None, Some two_objects_reply] @ Some ''{"b": 2}'' # []) =
       Inr (JObj [(''b'', JNum 2)])\<close>
    using c5 [of "[None, Some two_objects_reply]" \<open>''{"b": 2}''\<close> "JObj [(''b'', JNum 2)]" "[]"] b(1,2)
    by simp
  have x: \<open>first_parse example_loads ([None] @ Some long_number # [Some ''{"b": 2}'']) = Inl ValueError\<close>
    using c6 [of "[None]" long_number ValueError \<open>[Some ''{"b": 2}'']\<close>] example_loads_long_number
    by simp
  have l: "extract_json_from_reply example_loads (Some long_number) = Inl ValueError"
    by (simp add: extract_long_number example_loads_long_number)
  from f b(4) b(3) e n s x l show ?thesis by (intro conjI)
qed

section \<open>Report retrieval\<close>

lemma split_on_absent: "sep \<notin> set s \<Longrightarrow> split_on sep s = [s]"
  by (induction s) auto

lemma length_long_name: "length long_name = 300"
  by (simp add: long_name_def)

lemma set_long_name: "set long_name = {CHR ''x''}"
  by (simp add: long_name_def)

lemma long_name_not_short: "length s < 300 \<Longrightarrow> long_name \<noteq> s"
  using length_long_name by auto

lemma path_parts_long_name: "path_parts long_name = [long_name]"
  by (simp add: path_parts_def split_on_absent set_long_name long_name_not_short)

lemma joinpath_long_name: "joinpath example_dir long_name = example_dir @ [long_name]"
proof -
  have "(300::nat) = Suc 299" by simp
  then have h: "long_name = CHR ''x'' # replicate 299 CHR ''x''"
    unfolding long_name_def by (simp only: replicate_Suc)
  have "\<not> prefix ''/'' long_name" unfolding h by simp
  then show ?thesis by (simp add: joinpath_def path_parts_long_name)
qed

lemma resolve_long_name:
  "resolve (joinpath example_dir long_name) = Inr (example_dir @ [long_name])"
  unfolding joinpath_long_name
  by (simp add: resolve_def example_dir_def set_long_name long_name_not_short)

lemma utf8_len_long_name: "utf8_len long_name = 300"
  by (simp add: utf8_len_def long_name_def)

lemma is_file_long_name: "is_file example_fs (example_dir @ [long_name]) = Inl OSError"
proof -
  have u: "utf8_len ''srv'' = 3" "utf8_len ''app'' = 3" "utf8_len ''reports'' = 7"
    by (simp_all add: utf8_len_def)
  have "path_bytes (example_dir @ [long_name]) < PATH_MAX"
    by (simp add: path_bytes_def example_dir_def utf8_len_long_name PATH_MAX_def u)
  moreover have "path_walk (dirs example_fs) [] (example_dir @ [long_name]) = Inl OSError"
    by (simp add: example_fs_def example_dir_def utf8_len_long_name NAME_MAX_def u)
  ultimately show ?thesis by (simp add: is_file_def)
qed

lemma get_report_served:
  assumes "get_report fs REPORTS_DIR filename = FileResponse body"
  shows "\<exists>p. resolve (joinpath REPORTS_DIR filename) = Inr p \<and> prefix REPORTS_DIR p
           \<and> files fs p = Some body"
proof -
  from assms obtain p where p: "resolve (joinpath REPORTS_DIR filename) = Inr p"
    by (cases "resolve (joinpath REPORTS_DIR filename)") (simp_all add: get_report_def)
  from assms p have pre: "prefix REPORTS_DIR p"
    by (cases "prefix REPORTS_DIR p") (simp_all add: get_report_def relative_to_def)
  from assms p pre have "is_file fs p = Inr True" "body = the (files fs p)"
    by (auto simp: get_report_def relative_to_def split: sum.splits if_splits)
  then have "files fs p = Some body"
    by (auto simp: is_file_def split: if_splits sum.splits)
  with p pre show ?thesis by blast
qed

lemma get_report_outside:
  "resolve (joinpath REPORTS_DIR filename) = Inr p \<Longrightarrow> \<not> prefix REPORTS_DIR p \<Longrightarrow>
     get_report fs REPORTS_DIR filename = NotFound404"
  by (simp add: get_report_def relative_to_def)

text \<open>
  C9. For a name of 300 letters the resolved path is inside the reports directory and no
  file is there, so the claim has the endpoint answer not-found; \<open>is_file\<close> raises
  \<open>OSError\<close>, which leaves \<open>get_report\<close>. For a name with a NUL character \<open>resolve\<close>
  raises \<open>ValueError\<close> before the \<open>try\<close>. A missing file of a short name, a path that
  leaves the directory and the report itself are answered as the claim says.
\<close>

theorem get_report_exception_escapes:
  "resolve (joinpath example_dir long_name) = Inr (example_dir @ [long_name])
   \<and> prefix example_dir (example_dir @ [long_name])
   \<and> files example_fs (example_dir @ [long_name]) = None
   \<and> get_report example_fs example_dir long_name = ServerError OSError
   \<and> get_report example_fs example_dir nul_name = ServerError ValueError
   \<and> get_report example_fs example_dir ''missing.html'' = NotFound404
   \<and> get_report example_fs example_dir ''../api.py'' = NotFound404
   \<and> get_report example_fs example_dir ''journal_report_20240301_101500.html'' =
       FileResponse ''<html>report</html>''"
proof (intro conjI)
  show "resolve (joinpath example_dir long_name) = Inr (example_dir @ [long_name])"
    by (rule resolve_long_name)
  show "prefix example_dir (example_dir @ [long_name])" by simp
  show "files example_fs (example_dir @ [long_name]) = None"
    by (simp add: example_fs_def example_dir_def long_name_not_short)
  show "get_report example_fs example_dir long_name = ServerError OSError"
    by (simp add: get_report_def resolve_long_name relative_to_def is_file_long_name)
  show "get_report example_fs example_dir nul_name = ServerError ValueError"
    by code_simp
  show "get_report example_fs example_dir ''missing.html'' = NotFound404"
    by code_simp
  show "get_report example_fs example_dir ''../api.py'' = NotFound404"
    by code_simp
  show "get_report example_fs example_dir ''journal_report_20240301_101500.html'' =
       FileResponse ''<html>report</html>''"
    by code_simp
qed

end
